theory Spec2Isabelle
  imports Main "HOL-Library.Multiset"
begin

section \<open>Data model\<close>

text \<open>
  The rows of the \<open>comments\<close> table, as \<open>Comment.init\<close> declares them
  (models/Comment.js). Identifiers are JavaScript numbers that the validators restrict to
  positive integers; \<open>parent_id\<close> is nullable. \<open>created_at\<close> is a date, kept as
  the number of milliseconds that \<open>new Date(...)\<close> subtracts in the sort comparator.
  The field \<open>id\<close> is named \<open>id_c\<close> here.
\<close>

record comment =
  id_c :: nat
  post_id :: nat
  user_id :: nat
  parent_id :: "nat option"
  content :: string
  is_published :: bool
  created_at :: int

text \<open>The columns of a reaction row that the comment routes read.\<close>

record reaction =
  r_comment_id :: "nat option"
  emoji_name :: string
  emoji_unicode :: string
  r_user_id :: nat

text \<open>The calls the comment routes make on the models, in the order they are awaited.\<close>

datatype access =
    Q_Post_findByPk nat
  | Q_User_findByPk nat
  | Q_Comment_findByPk nat
  | Q_Comment_getCommentDepth nat
  | Q_Comment_create
  | Q_Comment_count nat
  | Q_Comment_destroy nat
  | Q_Comment_findAll

text \<open>
  The columns of a media row that the comment queries join on: a file is attached to a
  post or to a comment, so \<open>comment_id\<close> is nullable.
\<close>

record media_row =
  m_id :: nat
  m_comment_id :: "nat option"

text \<open>
  The store: the primary keys of the post and user rows, the comment, reaction and media
  tables in insertion order, the last value of the serial column \<open>comments.id\<close>, and
  the log of model calls made so far. SQL leaves open the order of the rows that an
  \<open>ORDER BY\<close> does not separate: \<open>scan\<close> is the order in which the database
  happens to yield the rows of a query before they are sorted.
\<close>

record database =
  posts :: "nat list"
  users :: "nat list"
  comments :: "comment list"
  reactions :: "reaction list"
  media :: "media_row list"
  comment_seq :: nat
  queries :: "access list"
  scan :: "comment list \<Rightarrow> comment list"

definition logq :: "access \<Rightarrow> database \<Rightarrow> database" where
  "logq a db = db\<lparr>queries := queries db @ [a]\<rparr>"

text \<open>JavaScript truthiness of a nullable number: \<open>null\<close>, \<open>undefined\<close> and \<open>0\<close> are falsy.\<close>

definition truthy :: "nat option \<Rightarrow> bool" where
  "truthy v = (case v of None \<Rightarrow> False | Some n \<Rightarrow> n \<noteq> 0)"

definition findByPk :: "comment list \<Rightarrow> nat \<Rightarrow> comment option" where
  "findByPk tbl k = find (\<lambda>c. id_c c = k) tbl"

section \<open>Comment.getCommentDepth\<close>

text \<open>
  The recursion of \<open>Comment.getCommentDepth\<close> follows \<open>parent_id\<close> links with no
  bound of its own, so it is a partial function: \<open>None\<close> stands for a call that does
  not return.
\<close>

partial_function (option) getCommentDepth :: "comment list \<Rightarrow> nat option \<Rightarrow> nat option" where
  "getCommentDepth tbl commentId =
     (if \<not> truthy commentId then Some 0
      else case findByPk tbl (the commentId) of
             None \<Rightarrow> Some 0
           | Some c \<Rightarrow>
               if \<not> truthy (parent_id c) then Some 0
               else Option.bind (getCommentDepth tbl (parent_id c)) (\<lambda>d. Some (1 + d)))"

declare getCommentDepth.simps [code]

section \<open>Responses and validation\<close>

datatype error_type = VALIDATION_ERROR | NOT_FOUND | INVALID_PARENT | MAX_DEPTH_EXCEEDED

text \<open>
  A response is \<open>res.status(s).json({success: false, error: {message, type}})\<close>, a
  successful \<open>res.json\<close> with its status, data and message, or an exception handed to
  \<open>next(error)\<close> with the messages it carries.
\<close>

datatype 'a response =
    Failure nat error_type string
  | Success nat 'a string
  | Passed_to_next "string list"

text \<open>
  The characters of an 8-bit string that the regular expression \<open>\s\<close> of validator.js's
  \<open>trim\<close> matches: tab, line feed, vertical tab, form feed, carriage return, space and
  the no-break space.
\<close>

definition whitespace :: "char \<Rightarrow> bool" where
  "whitespace ch = (of_char ch \<in> {9, 10, 11, 12, 13, 32, 160 :: nat})"

definition trim :: "string \<Rightarrow> string" where
  "trim s = rev (dropWhile whitespace (rev (dropWhile whitespace s)))"

definition isLength :: "nat \<Rightarrow> nat \<Rightarrow> string \<Rightarrow> bool" where
  "isLength lo hi s = (lo \<le> length s \<and> length s \<le> hi)"

text \<open>\<open>isInt({ min: 1 })\<close> on a required field: an absent field fails.\<close>

definition isInt_min1 :: "nat option \<Rightarrow> bool" where
  "isInt_min1 v = (case v of None \<Rightarrow> False | Some n \<Rightarrow> 1 \<le> n)"

text \<open>\<open>optional().isInt({ min: 1 })\<close>: an absent field passes.\<close>

definition optional_isInt_min1 :: "nat option \<Rightarrow> bool" where
  "optional_isInt_min1 v = (case v of None \<Rightarrow> True | Some n \<Rightarrow> 1 \<le> n)"

section \<open>POST /api/comments\<close>

record create_body =
  b_post_id :: "nat option"
  b_user_id :: "nat option"
  b_content :: string
  b_parent_id :: "nat option"

text \<open>The validator chain of \<open>router.post('/')\<close>: the messages of the checks that fail.\<close>

definition post_validators :: "create_body \<Rightarrow> string list" where
  "post_validators b =
     (if isInt_min1 (b_post_id b) then []
      else [''Post ID is required and must be a positive integer'']) @
     (if isInt_min1 (b_user_id b) then []
      else [''User ID is required and must be a positive integer'']) @
     (if isLength 1 2000 (trim (b_content b)) then []
      else [''Content must be between 1 and 2000 characters'']) @
     (if optional_isInt_min1 (b_parent_id b) then []
      else [''Parent ID must be a positive integer''])"

text \<open>
  The \<open>beforeCreate\<close> hook of the model: it throws when the parent is missing or belongs
  to another post, and when the parent's depth is 5 or more.
\<close>

definition beforeCreate :: "comment list \<Rightarrow> comment \<Rightarrow> (string + unit) option" where
  "beforeCreate tbl c =
     (if truthy (parent_id c) then
        (case findByPk tbl (the (parent_id c)) of
           None \<Rightarrow> Some (Inl ''Parent comment must belong to the same post'')
         | Some parentComment \<Rightarrow>
             if post_id parentComment \<noteq> post_id c
             then Some (Inl ''Parent comment must belong to the same post'')
             else (case getCommentDepth tbl (parent_id c) of
                     None \<Rightarrow> None
                   | Some depth \<Rightarrow>
                       if depth \<ge> 5 then Some (Inl ''Maximum comment nesting depth exceeded'')
                       else Some (Inr ())))
      else Some (Inr ()))"

text \<open>The model's \<open>notEmpty\<close> validator: the string is not made of whitespace only.\<close>

definition notEmpty :: "string \<Rightarrow> bool" where
  "notEmpty s = (\<not> list_all whitespace s)"

text \<open>
  \<open>Comment.create\<close>: the \<open>beforeValidate\<close> hook trims the content, the model's
  validators \<open>len: [1, 2000]\<close> and \<open>notEmpty\<close> run, \<open>beforeCreate\<close> runs, and the row
  is inserted with the next value of the serial column, \<open>is_published\<close> at its default
  \<open>true\<close> and \<open>created_at\<close> at the current time \<open>now\<close>. A failure is thrown.
\<close>

definition Comment_create ::
  "database \<Rightarrow> nat \<Rightarrow> nat \<Rightarrow> nat option \<Rightarrow> string \<Rightarrow> int \<Rightarrow> (string list + database \<times> comment) option" where
  "Comment_create db pid uid par txt now =
     (let c = \<lparr>id_c = comment_seq db + 1, post_id = pid, user_id = uid, parent_id = par,
               content = trim txt, is_published = True, created_at = now\<rparr>;
          errors =
            (if isLength 1 2000 (content c) then []
             else [''Comment content must be between 1 and 2000 characters'']) @
            (if notEmpty (content c) then [] else [''Comment content cannot be empty''])
      in if errors \<noteq> [] then Some (Inl errors)
         else (case beforeCreate (comments db) c of
                 None \<Rightarrow> None
               | Some (Inl msg) \<Rightarrow> Some (Inl [msg])
               | Some (Inr u) \<Rightarrow>
                   Some (Inr (db\<lparr>comments := comments db @ [c],
                                 comment_seq := comment_seq db + 1\<rparr>, c))))"

text \<open>
  The tail of the handler: create the row, fetch it again by its id and answer 201 with
  what was fetched (\<open>None\<close> standing for \<open>null\<close>).
\<close>

definition create_and_respond ::
  "database \<Rightarrow> nat \<Rightarrow> nat \<Rightarrow> nat option \<Rightarrow> string \<Rightarrow> int \<Rightarrow>
   (database \<times> comment option response) option" where
  "create_and_respond db pid uid par txt now =
     (case Comment_create (logq Q_Comment_create db) pid uid par txt now of
        None \<Rightarrow> None
      | Some (Inl msgs) \<Rightarrow> Some (logq Q_Comment_create db, Passed_to_next msgs)
      | Some (Inr (db', c)) \<Rightarrow>
          (let db'' = logq (Q_Comment_findByPk (id_c c)) db';
               newComment = findByPk (comments db'') (id_c c)
           in Some (db'', Success 201 newComment
                     (if truthy par then ''Reply created successfully''
                      else ''Comment created successfully''))))"

text \<open>
  \<open>router.post('/')\<close>: the validators and \<open>handleValidationErrors\<close> run before the
  handler; the handler checks the post, the user and, for a reply, the parent.
  The \<open>trim\<close> sanitizer of the validator chain has replaced \<open>req.body.content\<close>.
\<close>

definition postComment ::
  "database \<Rightarrow> create_body \<Rightarrow> int \<Rightarrow> (database \<times> comment option response) option" where
  "postComment db b now =
     (if post_validators b \<noteq> [] then Some (db, Failure 400 VALIDATION_ERROR ''Validation failed'')
      else
        let pid = the (b_post_id b); uid = the (b_user_id b);
            txt = trim (b_content b); par = b_parent_id b;
            db1 = logq (Q_Post_findByPk pid) db
        in if pid \<notin> set (posts db1) then Some (db1, Failure 404 NOT_FOUND ''Post not found'')
           else
             let db2 = logq (Q_User_findByPk uid) db1
             in if uid \<notin> set (users db2) then Some (db2, Failure 404 NOT_FOUND ''User not found'')
                else if truthy par then
                  (let db3 = logq (Q_Comment_findByPk (the par)) db2
                   in case findByPk (comments db3) (the par) of
                        None \<Rightarrow> Some (db3, Failure 404 NOT_FOUND ''Parent comment not found'')
                      | Some parentComment \<Rightarrow>
                          if post_id parentComment \<noteq> pid
                          then Some (db3, Failure 400 INVALID_PARENT
                                       ''Parent comment must belong to the same post'')
                          else
                            (let db4 = logq (Q_Comment_getCommentDepth (the par)) db3
                             in case getCommentDepth (comments db4) par of
                                  None \<Rightarrow> None
                                | Some depth \<Rightarrow>
                                    if depth \<ge> 5
                                    then Some (db4, Failure 400 MAX_DEPTH_EXCEEDED
                                           ''Maximum comment nesting depth exceeded (5 levels)'')
                                    else create_and_respond db4 pid uid par txt now))
                else create_and_respond db2 pid uid par txt now)"

section \<open>DELETE /api/comments/:id\<close>

text \<open>
  The foreign key \<open>comments.parent_id\<close> is declared with \<open>onDelete: 'CASCADE'\<close>:
  deleting rows deletes the rows that reference them, and so on until no row references
  a deleted one. \<open>cascade ks tbl\<close> removes from \<open>tbl\<close> what the deletion of the rows
  with the keys \<open>ks\<close> takes along.
\<close>

definition references :: "nat list \<Rightarrow> comment \<Rightarrow> bool" where
  "references ks c = (case parent_id c of None \<Rightarrow> False | Some p \<Rightarrow> p \<in> set ks)"

function cascade :: "nat list \<Rightarrow> comment list \<Rightarrow> comment list" where
  "cascade ks tbl =
     (if filter (references ks) tbl = [] then tbl
      else cascade (map id_c (filter (references ks) tbl))
                   (filter (\<lambda>c. \<not> references ks c) tbl))"
  by pat_completeness auto
termination
proof (relation "measure (\<lambda>(ks, tbl). length tbl)")
  show "wf (measure (\<lambda>(ks, tbl). length tbl))" by simp
next
  fix ks :: "nat list" and tbl :: "comment list"
  assume "filter (references ks) tbl \<noteq> []"
  then obtain c where "c \<in> set tbl" "references ks c"
    by (metis filter_False)
  then have "length (filter (\<lambda>c. \<not> references ks c) tbl) < length tbl"
    by (intro length_filter_less[where x = c]) auto
  then show "((map id_c (filter (references ks) tbl), filter (\<lambda>c. \<not> references ks c) tbl), (ks, tbl))
      \<in> measure (\<lambda>(ks, tbl). length tbl)"
    by simp
qed

declare cascade.simps [simp del]

text \<open>
  \<open>comment.destroy()\<close>: the row is deleted, the cascade removes its replies, and the
  reactions and media of the deleted comments go with them (\<open>reactions.comment_id\<close>
  and \<open>media.comment_id\<close> cascade too).
\<close>

definition Comment_destroy :: "database \<Rightarrow> comment \<Rightarrow> database" where
  "Comment_destroy db c =
     (let kept = cascade [id_c c] (filter (\<lambda>x. id_c x \<noteq> id_c c) (comments db))
      in db\<lparr>comments := kept,
            reactions := filter (\<lambda>r. case r_comment_id r of None \<Rightarrow> True
                                       | Some k \<Rightarrow> k \<in> id_c ` set kept \<or> k \<notin> id_c ` set (comments db))
                           (reactions db),
            media := filter (\<lambda>m. case m_comment_id m of None \<Rightarrow> True
                                   | Some k \<Rightarrow> k \<in> id_c ` set kept \<or> k \<notin> id_c ` set (comments db))
                           (media db)\<rparr>)"

text \<open>The decimal digits that a template literal prints for a count.\<close>

function show_nat :: "nat \<Rightarrow> string" where
  "show_nat n = (if n < 10 then [''0123456789'' ! n]
                 else show_nat (n div 10) @ [''0123456789'' ! (n mod 10)])"
  by pat_completeness auto
termination
  by (relation "measure id") auto

declare show_nat.simps [simp del]

definition deleteComment :: "database \<Rightarrow> nat \<Rightarrow> database \<times> unit response" where
  "deleteComment db commentId =
     (if \<not> 1 \<le> commentId then (db, Failure 400 VALIDATION_ERROR ''Validation failed'')
      else
        let db1 = logq (Q_Comment_findByPk commentId) db
        in case findByPk (comments db1) commentId of
             None \<Rightarrow> (db1, Failure 404 NOT_FOUND ''Comment not found'')
           | Some c \<Rightarrow>
               (let db2 = logq (Q_Comment_count commentId) db1;
                    replyCount = length (filter (\<lambda>x. parent_id x = Some commentId) (comments db2));
                    db3 = Comment_destroy (logq (Q_Comment_destroy (id_c c)) db2) c
                in (db3, Success 200 ()
                     (''Comment deleted successfully'' @
                      (if replyCount > 0
                       then '' along with '' @ show_nat replyCount @ '' replies''
                       else '''')))))"

section \<open>Reaction counts\<close>

text \<open>
  The routes group the reactions of a comment by \<open>emoji_name\<close> in an object and read the
  groups back with \<open>Object.values\<close>: for names that are not integer-like the groups come
  in the order in which each name first occurs, which is the order kept here.
\<close>

record reaction_count =
  rc_emoji_name :: string
  rc_emoji_unicode :: string
  rc_count :: nat
  rc_users :: "nat list"

fun tally :: "bool \<Rightarrow> reaction \<Rightarrow> reaction_count list \<Rightarrow> reaction_count list" where
  "tally with_users r [] =
     [\<lparr>rc_emoji_name = emoji_name r, rc_emoji_unicode = emoji_unicode r, rc_count = 1,
       rc_users = (if with_users then [r_user_id r] else [])\<rparr>]"
| "tally with_users r (x # xs) =
     (if rc_emoji_name x = emoji_name r
      then x\<lparr>rc_count := rc_count x + 1,
             rc_users := (if with_users then rc_users x @ [r_user_id r] else [])\<rparr> # xs
      else x # tally with_users r xs)"

definition reaction_counts :: "bool \<Rightarrow> reaction list \<Rightarrow> reaction_count list" where
  "reaction_counts with_users rs = foldl (\<lambda>acc r. tally with_users r acc) [] rs"

text \<open>The \<open>reactions\<close> association of a comment: the reaction rows that reference it.\<close>

definition reactions_of :: "database \<Rightarrow> nat \<Rightarrow> reaction list" where
  "reactions_of db k = filter (\<lambda>r. r_comment_id r = Some k) (reactions db)"

section \<open>Comment.toJSON\<close>

text \<open>
  A model instance as a query returns it: the row, and the \<open>replies\<close> and
  \<open>reactions\<close> associations when the query includes them.
\<close>

record comment_instance =
  i_comment :: comment
  i_replies :: "comment list option"
  i_reactions :: "reaction list option"

text \<open>
  The model overrides \<open>toJSON\<close>: the plain object is \<open>getCommentData()\<close>, the
  columns of the row and fields computed from them, with \<open>replies\<close> when the
  instance has them. The included \<open>reactions\<close> are not copied, so the object has no
  \<open>reactions\<close> property.
\<close>

record comment_object =
  o_comment :: comment
  o_replies :: "comment list option"
  o_reactions :: "reaction list option"

definition toJSON :: "comment_instance \<Rightarrow> comment_object" where
  "toJSON i = \<lparr>o_comment = i_comment i, o_replies = i_replies i, o_reactions = None\<rparr>"

text \<open>
  The routes count the reactions of the plain object under
  \<open>if (commentJson.reactions)\<close>: with no such property the groups stay empty.
\<close>

definition count_reactions :: "bool \<Rightarrow> comment_object \<Rightarrow> reaction_count list" where
  "count_reactions with_users commentJson =
     (case o_reactions commentJson of
        None \<Rightarrow> []
      | Some rs \<Rightarrow> reaction_counts with_users rs)"

section \<open>GET /api/comments/:id\<close>

record comment_json =
  cj_comment :: comment
  cj_replies :: "comment list"
  cj_reaction_counts :: "reaction_count list"

text \<open>
  \<open>Comment.findByPk\<close> with the \<open>replies\<close> association included under
  \<open>required: false, where: { is_published: true }\<close>: the filter selects the replies
  that are joined, not the comment itself.
\<close>

definition getComment :: "database \<Rightarrow> nat \<Rightarrow> database \<times> comment_json response" where
  "getComment db commentId =
     (if \<not> 1 \<le> commentId then (db, Failure 400 VALIDATION_ERROR ''Validation failed'')
      else
        let db1 = logq (Q_Comment_findByPk commentId) db
        in case findByPk (comments db1) commentId of
             None \<Rightarrow> (db1, Failure 404 NOT_FOUND ''Comment not found'')
           | Some c \<Rightarrow>
               (let commentJson = toJSON
                      \<lparr>i_comment = c,
                       i_replies = Some (filter (\<lambda>x. parent_id x = Some (id_c c) \<and> is_published x)
                                           (comments db1)),
                       i_reactions = Some (reactions_of db1 (id_c c))\<rparr>
                in (db1, Success 200
                      \<lparr>cj_comment = o_comment commentJson,
                       cj_replies = (case o_replies commentJson of None \<Rightarrow> [] | Some rs \<Rightarrow> rs),
                       cj_reaction_counts = count_reactions True commentJson\<rparr> '''')))"

section \<open>GET /api/comments/:id/replies\<close>

text \<open>
  The rows of a query in the order in which the database yields them. \<open>f\<close> stands
  for that order and may be any rearrangement of the rows; where \<open>f rows\<close> is not a
  rearrangement of \<open>rows\<close>, the rows stay in table order.
\<close>

definition arrange :: "(comment list \<Rightarrow> comment list) \<Rightarrow> comment list \<Rightarrow> comment list" where
  "arrange f rows = (if mset (f rows) = mset rows then f rows else rows)"

text \<open>
  \<open>ORDER BY created_at\<close> in the direction that \<open>sort\<close> selects. The sort is stable,
  so rows with equal timestamps stay in the order in which the database yields them.
\<close>

definition order_by_created ::
  "(comment list \<Rightarrow> comment list) \<Rightarrow> string \<Rightarrow> comment list \<Rightarrow> comment list" where
  "order_by_created f sort' rows =
     (if sort' = ''newest'' then sort_key (\<lambda>c. - created_at c) (arrange f rows)
      else sort_key created_at (arrange f rows))"

record list_query =
  q_sort :: "string option"
  q_limit :: "nat option"
  q_page :: "nat option"

text \<open>\<open>query('sort').optional().isIn(['newest', 'oldest'])\<close>.\<close>

definition sort_valid :: "string option \<Rightarrow> bool" where
  "sort_valid s = (case s of None \<Rightarrow> True | Some v \<Rightarrow> v = ''newest'' \<or> v = ''oldest'')"

text \<open>\<open>query('limit').optional().isInt({ min: 1, max: m })\<close>.\<close>

definition limit_valid :: "nat \<Rightarrow> nat option \<Rightarrow> bool" where
  "limit_valid m l = (case l of None \<Rightarrow> True | Some v \<Rightarrow> 1 \<le> v \<and> v \<le> m)"

text \<open>\<open>x || d\<close> on an optional string and \<open>parseInt(x) || d\<close> on an optional number.\<close>

definition or_default_sort :: "string option \<Rightarrow> string" where
  "or_default_sort s = (case s of None \<Rightarrow> ''oldest'' | Some v \<Rightarrow> if v = [] then ''oldest'' else v)"

definition or_default :: "nat option \<Rightarrow> nat \<Rightarrow> nat" where
  "or_default l d = (case l of None \<Rightarrow> d | Some v \<Rightarrow> if v = 0 then d else v)"

record reply_json =
  rj_comment :: comment
  rj_reaction_counts :: "reaction_count list"

record replies_json =
  parent_comment_id :: nat
  rs_replies :: "reply_json list"
  rs_total_count :: nat
  rs_sort :: string

definition getReplies :: "database \<Rightarrow> nat \<Rightarrow> list_query \<Rightarrow> database \<times> replies_json response" where
  "getReplies db commentId q =
     (if \<not> (1 \<le> commentId \<and> sort_valid (q_sort q) \<and> limit_valid 50 (q_limit q))
      then (db, Failure 400 VALIDATION_ERROR ''Validation failed'')
      else
        let sort' = or_default_sort (q_sort q);
            limit = or_default (q_limit q) 20;
            db1 = logq (Q_Comment_findByPk commentId) db
        in case findByPk (comments db1) commentId of
             None \<Rightarrow> (db1, Failure 404 NOT_FOUND ''Comment not found'')
           | Some parentComment \<Rightarrow>
               (let db2 = logq Q_Comment_findAll db1;
                    replies = take limit (order_by_created (scan db2) sort'
                       (filter (\<lambda>c. parent_id c = Some commentId \<and> is_published c) (comments db2)));
                    processedReplies =
                       map (\<lambda>reply.
                              let replyJson = toJSON
                                    \<lparr>i_comment = reply, i_replies = None,
                                     i_reactions = Some (reactions_of db2 (id_c reply))\<rparr>
                              in \<lparr>rj_comment = o_comment replyJson,
                                  rj_reaction_counts = count_reactions False replyJson\<rparr>)
                           replies
                in (db2, Success 200
                      \<lparr>parent_comment_id = commentId, rs_replies = processedReplies,
                       rs_total_count = length replies, rs_sort = sort'\<rparr> '''')))"

section \<open>The comment tree\<close>

text \<open>
  The routes turn each fetched row into an object with an empty \<open>replies\<close> array and
  then link the objects. The objects are shared between \<open>commentMap\<close>,
  \<open>rootComments\<close> and the \<open>replies\<close> arrays, so they live in a store: the list of
  objects in the order of the fetched rows, an object being referred to by its position.
\<close>

record node =
  n_comment :: comment
  n_reaction_counts :: "reaction_count list"
  n_replies :: "nat list"

text \<open>
  \<open>processedComments.forEach(comment => commentMap.set(comment.id, comment))\<close>:
  a later object with the same \<open>id\<close> replaces an earlier one.
\<close>

definition commentMap :: "node list \<Rightarrow> nat \<rightharpoonup> nat" where
  "commentMap h = fold (\<lambda>i m. m(id_c (n_comment (h ! i)) \<mapsto> i)) [0..<length h] Map.empty"

text \<open>
  One step of the second \<open>forEach\<close>: an object with a truthy \<open>parent_id\<close> is pushed
  onto the \<open>replies\<close> of the object that \<open>commentMap\<close> holds for that id, if there
  is one; an object with a falsy \<open>parent_id\<close> is pushed onto \<open>rootComments\<close>.
\<close>

definition attach :: "(nat \<rightharpoonup> nat) \<Rightarrow> nat \<Rightarrow> node list \<times> nat list \<Rightarrow> node list \<times> nat list" where
  "attach m i s =
     (case s of (h, rootComments) \<Rightarrow>
        if truthy (parent_id (n_comment (h ! i))) then
          (case m (the (parent_id (n_comment (h ! i)))) of
             Some p \<Rightarrow> (h[p := (h ! p)\<lparr>n_replies := n_replies (h ! p) @ [i]\<rparr>], rootComments)
           | None \<Rightarrow> (h, rootComments))
        else (h, rootComments @ [i]))"

definition buildTree :: "node list \<Rightarrow> node list \<times> nat list" where
  "buildTree h = fold (attach (commentMap h)) [0..<length h] (h, [])"

text \<open>\<open>Comment.getCommentTree\<close> and the routes start from objects without replies.\<close>

definition fresh_nodes :: "comment list \<Rightarrow> node list" where
  "fresh_nodes cs = map (\<lambda>c. \<lparr>n_comment = c, n_reaction_counts = [], n_replies = []\<rparr>) cs"

text \<open>
  \<open>Array.prototype.sort\<close> with a comparator is a stable sort: an element goes after
  the elements that the comparator does not put behind it.
\<close>

fun insert_by :: "('a \<Rightarrow> 'a \<Rightarrow> int) \<Rightarrow> 'a \<Rightarrow> 'a list \<Rightarrow> 'a list" where
  "insert_by cmp x [] = [x]"
| "insert_by cmp x (y # ys) = (if cmp x y < 0 then x # y # ys else y # insert_by cmp x ys)"

definition js_sort :: "('a \<Rightarrow> 'a \<Rightarrow> int) \<Rightarrow> 'a list \<Rightarrow> 'a list" where
  "js_sort cmp xs = foldl (\<lambda>acc x. insert_by cmp x acc) [] xs"

text \<open>The comparator of \<open>sortReplies\<close>: \<open>dateB - dateA\<close> for newest, \<open>dateA - dateB\<close> otherwise.\<close>

definition created_cmp :: "string \<Rightarrow> node list \<Rightarrow> nat \<Rightarrow> nat \<Rightarrow> int" where
  "created_cmp sort' h a b =
     (let dateA = created_at (n_comment (h ! a)); dateB = created_at (n_comment (h ! b))
      in if sort' = ''newest'' then dateB - dateA else dateA - dateB)"

text \<open>
  \<open>sortReplies\<close> sorts the \<open>replies\<close> of each object of the list in place and recurses
  into them. The recursion follows the arrays of the store, so it is a partial
  function: \<open>None\<close> stands for a call that does not return.
\<close>

partial_function (option) sortReplies :: "string \<Rightarrow> node list \<Rightarrow> nat list \<Rightarrow> node list option" where
  "sortReplies sort' h cs =
     (case cs of
        [] \<Rightarrow> Some h
      | c # rest \<Rightarrow>
          if n_replies (h ! c) \<noteq> [] then
            Option.bind
              (sortReplies sort'
                 (h[c := (h ! c)\<lparr>n_replies := js_sort (created_cmp sort' h) (n_replies (h ! c))\<rparr>])
                 (js_sort (created_cmp sort' h) (n_replies (h ! c))))
              (\<lambda>h2. sortReplies sort' h2 rest)
          else sortReplies sort' h rest)"

declare sortReplies.simps [code]

text \<open>
  What \<open>res.json\<close> sends for an array of objects: the objects with their \<open>replies\<close>
  written out in place, level by level. The tree holds the positions of the objects.
\<close>

datatype 'a tree = Node 'a "'a tree list"

partial_function (option) serialize :: "node list \<Rightarrow> nat list \<Rightarrow> nat tree list option" where
  "serialize h cs =
     (case cs of
        [] \<Rightarrow> Some []
      | c # rest \<Rightarrow>
          Option.bind (serialize h (n_replies (h ! c)))
            (\<lambda>ts. Option.bind (serialize h rest) (\<lambda>us. Some (Node c ts # us))))"

declare serialize.simps [code]

text \<open>The fields of an object that the response shows beside its replies.\<close>

definition shown :: "node list \<Rightarrow> nat \<Rightarrow> comment \<times> reaction_count list" where
  "shown h i = (n_comment (h ! i), n_reaction_counts (h ! i))"

section \<open>GET /api/comments/post/:postId\<close>

record listing_json =
  l_post_id :: nat
  l_comments :: "(comment \<times> reaction_count list) tree list"
  l_total_count :: nat
  l_sort :: string

text \<open>
  The Sequelize route: the published comments of the post, ordered by \<open>created_at\<close> and
  cut to \<open>limit\<close> (50 when absent), are linked into a tree whose replies are sorted.
\<close>

definition getPostComments ::
  "database \<Rightarrow> nat \<Rightarrow> list_query \<Rightarrow> (database \<times> listing_json response) option" where
  "getPostComments db postId q =
     (if \<not> (1 \<le> postId \<and> sort_valid (q_sort q) \<and> limit_valid 100 (q_limit q))
      then Some (db, Failure 400 VALIDATION_ERROR ''Validation failed'')
      else
        let sort' = or_default_sort (q_sort q);
            limit = or_default (q_limit q) 50;
            db1 = logq (Q_Post_findByPk postId) db
        in if postId \<notin> set (posts db1) then Some (db1, Failure 404 NOT_FOUND ''Post not found'')
           else
             let db2 = logq Q_Comment_findAll db1;
                 comments = take limit (order_by_created (scan db2) sort'
                    (filter (\<lambda>c. post_id c = postId \<and> is_published c) (comments db2)));
                 processedComments =
                    map (\<lambda>comment.
                           let commentJson = toJSON
                                 \<lparr>i_comment = comment, i_replies = None,
                                  i_reactions = Some (reactions_of db2 (id_c comment))\<rparr>
                           in \<lparr>n_comment = o_comment commentJson,
                               n_reaction_counts = count_reactions True commentJson,
                               n_replies = []\<rparr>) comments
             in case buildTree processedComments of
                  (h, rootComments) \<Rightarrow>
                    (case sortReplies sort' h rootComments of
                       None \<Rightarrow> None
                     | Some h' \<Rightarrow>
                         (case serialize h' rootComments of
                            None \<Rightarrow> None
                          | Some forest \<Rightarrow>
                              Some (db2, Success 200
                                \<lparr>l_post_id = postId,
                                 l_comments = map (map_tree (shown h')) forest,
                                 l_total_count = length comments,
                                 l_sort = sort'\<rparr> ''''))))"

section \<open>GET /api/comments/post/:postId with pages\<close>

text \<open>
  The PostgreSQL version of the listing route (the comments routes after the posts
  routes in routes/posts.js) counts and pages the top-level comments and fetches the
  replies of the page in a second query. Its queries are written out in the handler.
\<close>

text \<open>
  \<open>FROM comments c LEFT JOIN media m ON c.id = m.comment_id\<close>: a comment comes once
  for each media row attached to it, and once when it has none. Of a joined row the
  comment columns are kept.
\<close>

definition left_join_media :: "media_row list \<Rightarrow> comment list \<Rightarrow> comment list" where
  "left_join_media ms rows =
     concat (map (\<lambda>c. replicate (max 1 (length (filter (\<lambda>m. m_comment_id m = Some (id_c c)) ms))) c)
                 rows)"

text \<open>
  Modelled from the spec: \<open>Comment.getCommentData\<close> belongs to the PostgreSQL comment
  model, which is not among the sources. The spec has each node of the tree carry the
  attributes of its row, so the function is taken to copy the columns.
\<close>

definition getCommentData :: "comment \<Rightarrow> comment" where
  "getCommentData r = r"

text \<open>
  The bulk reaction query groups by \<open>comment_id, emoji_name\<close> and orders the groups of a
  comment by \<open>count DESC\<close>; it selects the name and the count only, so the other fields
  stay empty.
\<close>

definition sql_reaction_counts :: "reaction list \<Rightarrow> reaction_count list" where
  "sql_reaction_counts rs =
     sort_key (\<lambda>g. - int (rc_count g))
       (map (\<lambda>g. g\<lparr>rc_emoji_unicode := []\<rparr>) (reaction_counts False rs))"

text \<open>\<open>Math.ceil(totalCount / limit)\<close> for a positive \<open>limit\<close>.\<close>

definition total_pages_of :: "nat \<Rightarrow> nat \<Rightarrow> nat" where
  "total_pages_of totalCount limit = (totalCount + limit - 1) div limit"

record pagination_json =
  current_page :: nat
  total_pages :: nat
  pg_total_count :: nat
  pg_limit :: nat
  has_next_page :: bool
  has_prev_page :: bool

record paged_json =
  pl_post_id :: nat
  pl_comments :: "(comment \<times> reaction_count list) tree list"
  pl_total_count :: nat
  pl_sort :: string
  pl_pagination :: pagination_json

definition getPostCommentsPaged ::
  "database \<Rightarrow> nat \<Rightarrow> list_query \<Rightarrow> (database \<times> paged_json response) option" where
  "getPostCommentsPaged db postId q =
     (if \<not> (1 \<le> postId \<and> sort_valid (q_sort q) \<and> limit_valid 100 (q_limit q) \<and>
             optional_isInt_min1 (q_page q))
      then Some (db, Failure 400 VALIDATION_ERROR ''Validation failed'')
      else
        let sort' = or_default_sort (q_sort q);
            limit = or_default (q_limit q) 10;
            page = or_default (q_page q) 1;
            offset = (page - 1) * limit;
            db1 = logq (Q_Post_findByPk postId) db
        in if postId \<notin> set (posts db1) then Some (db1, Failure 404 NOT_FOUND ''Post not found'')
           else
             let db2 = logq Q_Comment_findAll db1;
                 topLevel = filter (\<lambda>c. post_id c = postId \<and> is_published c \<and> parent_id c = None)
                              (comments db2);
                 totalCount = length topLevel;
                 commentsResult = take limit (drop offset (order_by_created (scan db2) sort'
                    (filter (\<lambda>c. post_id c = postId \<and> is_published c \<and> parent_id c = None)
                       (left_join_media (media db2) (comments db2)))));
                 commentIds = map id_c commentsResult;
                 repliesResult =
                   (if commentIds \<noteq> []
                    then order_by_created (scan db2) sort'
                           (filter (\<lambda>c. references commentIds c \<and> is_published c)
                              (left_join_media (media db2) (comments db2)))
                    else []);
                 allComments = commentsResult @ repliesResult;
                 processedComments =
                    map (\<lambda>c. \<lparr>n_comment = getCommentData c,
                               n_reaction_counts = sql_reaction_counts (reactions_of db2 (id_c c)),
                               n_replies = []\<rparr>) allComments;
                 totalPages = total_pages_of totalCount limit
             in case buildTree processedComments of
                  (h, rootComments) \<Rightarrow>
                    (case sortReplies sort' h rootComments of
                       None \<Rightarrow> None
                     | Some h' \<Rightarrow>
                         (case serialize h' rootComments of
                            None \<Rightarrow> None
                          | Some forest \<Rightarrow>
                              Some (db2, Success 200
                                \<lparr>pl_post_id = postId,
                                 pl_comments = map (map_tree (shown h')) forest,
                                 pl_total_count = totalCount,
                                 pl_sort = sort',
                                 pl_pagination =
                                   \<lparr>current_page = page, total_pages = totalPages,
                                    pg_total_count = totalCount, pg_limit = limit,
                                    has_next_page = (page < totalPages),
                                    has_prev_page = (page > 1)\<rparr>\<rparr> ''''))))"

section \<open>Specification notions for the depth bound\<close>

text \<open>
  The spec's depth of a comment: the number of \<open>parent_id\<close> hops from the comment to its
  nearest ancestor whose \<open>parent_id\<close> is null, each hop resolved in the table.
\<close>

inductive hops :: "comment list \<Rightarrow> comment \<Rightarrow> nat \<Rightarrow> bool" for tbl where
  hops_root: "\<not> truthy (parent_id c) \<Longrightarrow> hops tbl c 0"
| hops_step: "truthy (parent_id c) \<Longrightarrow> findByPk tbl (the (parent_id c)) = Some p \<Longrightarrow> hops tbl p n
     \<Longrightarrow> hops tbl c (Suc n)"

text \<open>The depth invariant of the spec: every stored comment is at most 5 hops deep.\<close>

definition depth_inv :: "comment list \<Rightarrow> bool" where
  "depth_inv tbl = (\<forall>c \<in> set tbl. \<exists>n \<le> 5. hops tbl c n)"

text \<open>The primary key: identifiers are distinct, positive and drawn from the serial column.\<close>

definition pk_ok :: "database \<Rightarrow> bool" where
  "pk_ok db = (distinct (map id_c (comments db)) \<and> (\<forall>c \<in> set (comments db). 1 \<le> id_c c \<and> id_c c \<le> comment_seq db))"

text \<open>The row that a creation request inserts.\<close>

definition new_row :: "database \<Rightarrow> create_body \<Rightarrow> int \<Rightarrow> comment" where
  "new_row db b now = \<lparr>id_c = comment_seq db + 1, post_id = the (b_post_id b),
     user_id = the (b_user_id b), parent_id = b_parent_id b, content = trim (b_content b),
     is_published = True, created_at = now\<rparr>"

text \<open>
  A reply request that reaches the depth check: it passes validation, its post and user
  exist, and its parent exists and belongs to the same post.
\<close>

definition reply_admissible :: "database \<Rightarrow> create_body \<Rightarrow> bool" where
  "reply_admissible db b =
     (post_validators b = [] \<and> the (b_post_id b) \<in> set (posts db) \<and>
      the (b_user_id b) \<in> set (users db) \<and> truthy (b_parent_id b) \<and>
      (case findByPk (comments db) (the (b_parent_id b)) of
         None \<Rightarrow> False | Some p \<Rightarrow> post_id p = the (b_post_id b)))"

text \<open>The depth of the parent that a request names.\<close>

definition parent_depth :: "database \<Rightarrow> create_body \<Rightarrow> nat \<Rightarrow> bool" where
  "parent_depth db b d =
     (case findByPk (comments db) (the (b_parent_id b)) of
        None \<Rightarrow> False | Some p \<Rightarrow> hops (comments db) p d)"

section \<open>The scenario of the specification\<close>

text \<open>
  Post 1 with the comments A (1, root), B (2, root), C (3, parent A), D (4, parent C),
  E (5, parent D) and F (6, parent E); G (7, parent F) is the reply at depth 5.
\<close>

definition row :: "nat \<Rightarrow> nat option \<Rightarrow> int \<Rightarrow> comment" where
  "row i par t = \<lparr>id_c = i, post_id = 1, user_id = 1, parent_id = par, content = ''text'',
     is_published = True, created_at = t\<rparr>"

definition scenario_rows :: "comment list" where
  "scenario_rows = [row 1 None 10, row 2 None 20, row 3 (Some 1) 30, row 4 (Some 3) 40,
     row 5 (Some 4) 50, row 6 (Some 5) 60]"

definition scenario_db :: "comment list \<Rightarrow> database" where
  "scenario_db tbl = \<lparr>posts = [1], users = [1], comments = tbl, reactions = [], media = [],
     comment_seq = length tbl, queries = [], scan = (\<lambda>rows. rows)\<rparr>"

definition reply_to :: "nat \<Rightarrow> create_body" where
  "reply_to k = \<lparr>b_post_id = Some 1, b_user_id = Some 1, b_content = '' deep '', b_parent_id = Some k\<rparr>"


text \<open>
  A request with empty content (scenario 8 of the specification), a second post for the
  cross-post reply, and the reply itself: it names post 2 and the parent F of post 1.
\<close>

definition blank_body :: "nat option \<Rightarrow> nat option \<Rightarrow> nat option \<Rightarrow> create_body" where
  "blank_body p u par = \<lparr>b_post_id = p, b_user_id = u, b_content = [], b_parent_id = par\<rparr>"

definition two_posts_db :: database where
  "two_posts_db = (scenario_db scenario_rows)\<lparr>posts := [1, 2]\<rparr>"

definition cross_post_reply :: create_body where
  "cross_post_reply = (reply_to 6)\<lparr>b_post_id := Some 2\<rparr>"

section \<open>Specification notions for deletion and replies\<close>

text \<open>
  A comment descends from the keys \<open>K\<close> when its \<open>parent_id\<close> chain, resolved in the
  table, reaches a key of \<open>K\<close>: for \<open>K = {k}\<close> these are the replies to comment \<open>k\<close> at
  every depth.
\<close>

inductive descends :: "comment list \<Rightarrow> nat set \<Rightarrow> comment \<Rightarrow> bool" for tbl K where
  direct: "parent_id c = Some p \<Longrightarrow> p \<in> K \<Longrightarrow> descends tbl K c"
| via: "parent_id c = Some p \<Longrightarrow> q \<in> set tbl \<Longrightarrow> id_c q = p \<Longrightarrow> descends tbl K q
     \<Longrightarrow> descends tbl K c"

text \<open>The direct children of a comment, published or not.\<close>

definition direct_children :: "comment list \<Rightarrow> nat \<Rightarrow> comment list" where
  "direct_children tbl k = filter (\<lambda>x. parent_id x = Some k) tbl"

text \<open>The published direct children of a comment.\<close>

definition published_children :: "comment list \<Rightarrow> nat \<Rightarrow> comment list" where
  "published_children tbl k = filter (\<lambda>c. parent_id c = Some k \<and> is_published c) tbl"

text \<open>An unpublished comment, and a request that leaves every query parameter out.\<close>

definition hidden_row :: comment where
  "hidden_row = (row 8 None 80)\<lparr>is_published := False\<rparr>"

definition default_query :: list_query where
  "default_query = \<lparr>q_sort = None, q_limit = None, q_page = None\<rparr>"

section \<open>Specification notions for the comment tree\<close>

text \<open>
  The object that the \<open>parent_id\<close> of object \<open>j\<close> resolves to among the objects given
  to the builder, the objects without a parent, and the objects that name object \<open>i\<close>
  as their parent, in the order of the input.
\<close>

definition parent_ref :: "node list \<Rightarrow> nat \<Rightarrow> nat option" where
  "parent_ref h j =
     (if truthy (parent_id (n_comment (h ! j)))
      then commentMap h (the (parent_id (n_comment (h ! j)))) else None)"

definition is_root :: "node list \<Rightarrow> nat \<Rightarrow> bool" where
  "is_root h j = (\<not> truthy (parent_id (n_comment (h ! j))))"

definition children :: "node list \<Rightarrow> nat \<Rightarrow> nat list" where
  "children h i = filter (\<lambda>j. parent_ref h j = Some i) [0..<length h]"

text \<open>The map that the first pass has built after its first \<open>k\<close> objects.\<close>

definition map_upto :: "node list \<Rightarrow> nat \<Rightarrow> nat \<rightharpoonup> nat" where
  "map_upto h k = fold (\<lambda>i m. m(id_c (n_comment (h ! i)) \<mapsto> i)) [0..<k] Map.empty"

text \<open>Two fetched rows of which the second replies to a comment that was not fetched.\<close>

definition orphan_rows :: "comment list" where
  "orphan_rows = [row 2 None 20, row 3 (Some 1) 30]"


text \<open>
  The ancestor of object \<open>j\<close> after \<open>k\<close> resolved parent links; being \<open>d\<close> links below
  an object without a parent; and having such a root at all (a chain through \<open>n\<close>
  objects that ends has fewer than \<open>n\<close> links).
\<close>

fun anc :: "node list \<Rightarrow> nat \<Rightarrow> nat \<Rightarrow> nat option" where
  "anc h 0 j = Some j"
| "anc h (Suc k) j = (case parent_ref h j of None \<Rightarrow> None | Some p \<Rightarrow> anc h k p)"

definition rooted_at :: "node list \<Rightarrow> nat \<Rightarrow> nat \<Rightarrow> bool" where
  "rooted_at h d j = (case anc h d j of None \<Rightarrow> False | Some r \<Rightarrow> is_root h r)"

definition has_root :: "node list \<Rightarrow> nat \<Rightarrow> bool" where
  "has_root h j = list_ex (\<lambda>d. rooted_at h d j) [0..<length h]"

text \<open>The objects below which the resolved parent links form a finite tree.\<close>

inductive ft :: "node list \<Rightarrow> nat \<Rightarrow> bool" for h where
  ft_node: "(\<And>j. j < length h \<Longrightarrow> parent_ref h j = Some i \<Longrightarrow> ft h j) \<Longrightarrow> ft h i"

text \<open>Pre-order traversal of a tree and of a forest.\<close>

fun flatten :: "'a tree \<Rightarrow> 'a list" where
  "flatten (Node a ts) = a # concat (map flatten ts)"

definition flatten_forest :: "'a tree list \<Rightarrow> 'a list" where
  "flatten_forest F = concat (map flatten F)"

text \<open>
  A store \<open>h\<close> that holds the objects of \<open>h0\<close> with, as the replies of each object, the
  objects that name it as their parent, in some order.
\<close>

definition linked :: "node list \<Rightarrow> node list \<Rightarrow> bool" where
  "linked h0 h =
     (length h = length h0 \<and>
      (\<forall>i<length h0. n_comment (h ! i) = n_comment (h0 ! i) \<and>
         n_reaction_counts (h ! i) = n_reaction_counts (h0 ! i) \<and>
         mset (n_replies (h ! i)) = mset (children h0 i)))"

text \<open>The objects whose chain of resolved parent links passes through object \<open>c\<close>.\<close>

definition desc :: "node list \<Rightarrow> nat \<Rightarrow> nat set" where
  "desc h c = {j. j < length h \<and> (\<exists>k. anc h k j = Some c)}"

text \<open>
  In the list \<open>ys\<close> every object stands behind its resolved parent, the parents in \<open>S\<close>
  counting as already listed.
\<close>

fun pfirst :: "node list \<Rightarrow> nat set \<Rightarrow> nat list \<Rightarrow> bool" where
  "pfirst h S [] = True"
| "pfirst h S (q # ys) =
     ((case parent_ref h q of None \<Rightarrow> True | Some p \<Rightarrow> p \<in> S) \<and> pfirst h (insert q S) ys)"


section \<open>Specification notions for the order of siblings\<close>

text \<open>
  The key by which \<open>sort\<close> orders object \<open>i\<close>, and the replies of object \<open>x\<close> of the
  store \<open>h\<close> being in non-decreasing key order.
\<close>

definition skey :: "string \<Rightarrow> node list \<Rightarrow> nat \<Rightarrow> int" where
  "skey sort' h i =
     (if sort' = ''newest'' then - created_at (n_comment (h ! i)) else created_at (n_comment (h ! i)))"

definition srt :: "string \<Rightarrow> node list \<Rightarrow> node list \<Rightarrow> nat \<Rightarrow> bool" where
  "srt sort' h0 h x = sorted_wrt (\<lambda>a b. skey sort' h0 a \<le> skey sort' h0 b) (n_replies (h ! x))"

text \<open>What a run of sortReplies from h to h' over the objects C has achieved.\<close>

definition sorted_below :: "string \<Rightarrow> node list \<Rightarrow> node list \<Rightarrow> node list \<Rightarrow> nat set \<Rightarrow> bool" where
  "sorted_below sort' h0 h h' C =
     (linked h0 h' \<and>
      (\<forall>x<length h0. srt sort' h0 h x \<longrightarrow> srt sort' h0 h' x) \<and>
      (\<forall>c\<in>C. \<forall>x\<in>desc h0 c. srt sort' h0 h' x))"

text \<open>
  The root of a tree; a tree whose lists of siblings are all ordered by \<open>R\<close>; a forest
  whose root list and whose trees are.
\<close>

fun root_label :: "'a tree \<Rightarrow> 'a" where
  "root_label (Node a ts) = a"

fun tree_levels :: "('a \<Rightarrow> 'a \<Rightarrow> bool) \<Rightarrow> 'a tree \<Rightarrow> bool" where
  "tree_levels R (Node a ts) = (sorted_wrt R (map root_label ts) \<and> (\<forall>t\<in>set ts. tree_levels R t))"

definition forest_levels :: "('a \<Rightarrow> 'a \<Rightarrow> bool) \<Rightarrow> 'a tree list \<Rightarrow> bool" where
  "forest_levels R F = (sorted_wrt R (map root_label F) \<and> (\<forall>t\<in>set F. tree_levels R t))"

text \<open>
  Non-increasing and non-decreasing creation timestamps between an earlier and a later
  sibling of the response.
\<close>

definition newer_first :: "comment \<times> 'b \<Rightarrow> comment \<times> 'b \<Rightarrow> bool" where
  "newer_first a b = (created_at (fst b) \<le> created_at (fst a))"

definition older_first :: "comment \<times> 'b \<Rightarrow> comment \<times> 'b \<Rightarrow> bool" where
  "older_first a b = (created_at (fst a) \<le> created_at (fst b))"

definition level_rel :: "string \<Rightarrow> comment \<times> 'b \<Rightarrow> comment \<times> 'b \<Rightarrow> bool" where
  "level_rel sort' = (if sort' = ''newest'' then newer_first else older_first)"

text \<open>A listing request for the newest first, and the scenario with a second reply to A.\<close>

definition newest_query :: list_query where
  "newest_query = \<lparr>q_sort = Some ''newest'', q_limit = None, q_page = None\<rparr>"

definition two_replies_db :: database where
  "two_replies_db = scenario_db (scenario_rows @ [row 7 (Some 1) 70])"

text \<open>A request for the newest reply alone.\<close>

definition newest_one_query :: list_query where
  "newest_one_query = \<lparr>q_sort = Some ''newest'', q_limit = Some 1, q_page = None\<rparr>"


section \<open>Specification notions for the paged listing\<close>

text \<open>The published top-level comments of a post: what the paged listing counts and pages.\<close>

definition top_level :: "database \<Rightarrow> nat \<Rightarrow> comment list" where
  "top_level db postId =
     filter (\<lambda>c. post_id c = postId \<and> is_published c \<and> parent_id c = None) (comments db)"

text \<open>A store in which comment 1 carries two media rows and has one reply.\<close>

definition media_db :: database where
  "media_db = (scenario_db [row 1 None 10, row 3 (Some 1) 30])
     \<lparr>media := [\<lparr>m_id = 1, m_comment_id = Some 1\<rparr>, \<lparr>m_id = 2, m_comment_id = Some 1\<rparr>]\<rparr>"

section \<open>Lookups and the depth of stored comments\<close>

lemma findByPk_id: "findByPk tbl k = Some p \<Longrightarrow> id_c p = k \<and> p \<in> set tbl"
  by (auto simp: findByPk_def find_Some_iff)

lemma findByPk_append: "findByPk (tbl @ ys) k = (case findByPk tbl k of Some p \<Rightarrow> Some p | None \<Rightarrow> findByPk ys k)"
  by (induction tbl) (auto simp: findByPk_def)

lemma findByPk_append_Some: "findByPk tbl k = Some p \<Longrightarrow> findByPk (tbl @ ys) k = Some p"
  by (simp add: findByPk_append)

lemma hops_append: "hops tbl c n \<Longrightarrow> hops (tbl @ ys) c n"
  by (induction rule: hops.induct) (auto intro: hops.intros findByPk_append_Some)

lemma hops_unique: "hops tbl c n \<Longrightarrow> hops tbl c m \<Longrightarrow> n = m"
proof (induction arbitrary: m rule: hops.induct)
  case (hops_root c)
  then show ?case by (auto elim: hops.cases)
next
  case (hops_step c p n)
  from hops_step.prems hops_step.hyps(1,2) obtain m' where "m = Suc m'" "hops tbl p m'"
    by (auto elim: hops.cases)
  with hops_step.IH show ?case by simp
qed

lemma depth_of_hops:
  "hops tbl c n \<Longrightarrow> id_c c \<noteq> 0 \<Longrightarrow> findByPk tbl (id_c c) = Some c \<Longrightarrow>
   getCommentDepth tbl (Some (id_c c)) = Some n"
proof (induction rule: hops.induct)
  case (hops_root c)
  then show ?case by (subst getCommentDepth.simps) (simp add: truthy_def)
next
  case (hops_step c p n)
  have pid: "id_c p = the (parent_id c)" "p \<in> set tbl" using findByPk_id[OF hops_step.hyps(2)] by auto
  have par: "parent_id c = Some (id_c p)" "id_c p \<noteq> 0"
    using hops_step.hyps(1) pid by (auto simp: truthy_def split: option.splits)
  have "findByPk tbl (id_c p) = Some p" using hops_step.hyps(2) pid by simp
  with hops_step.IH par have "getCommentDepth tbl (Some (id_c p)) = Some n" by simp
  then show ?case using hops_step.prems hops_step.hyps(1) par
    by (subst getCommentDepth.simps) (simp add: truthy_def)
qed

lemma dropWhile_trim: "dropWhile whitespace (trim s) = trim s"
proof -
  define t where "t = dropWhile whitespace s"
  define u where "u = rev (dropWhile whitespace (rev t))"
  have "dropWhile whitespace u = u"
  proof (cases u)
    case Nil then show ?thesis by simp
  next
    case (Cons a as)
    have "t \<noteq> []" using Cons u_def by auto
    then have "\<not> whitespace (hd t)" unfolding t_def by (metis hd_dropWhile)
    obtain v where "rev t = v @ rev u" "\<forall>x\<in>set v. whitespace x"
      using takeWhile_dropWhile_id[of whitespace "rev t"] u_def
      by (metis rev_rev_ident set_takeWhileD)
    then have "t = u @ rev v" by (metis rev_append rev_rev_ident)
    then have "hd t = a" using Cons by simp
    then show ?thesis using Cons \<open>\<not> whitespace (hd t)\<close> by simp
  qed
  then show ?thesis unfolding trim_def t_def[symmetric] u_def[symmetric] .
qed

lemma trim_idem: "trim (trim s) = trim s"
proof -
  have "trim (trim s) = rev (dropWhile whitespace (rev (trim s)))"
    unfolding trim_def[of "trim s"] dropWhile_trim ..
  also have "rev (trim s) = dropWhile whitespace (rev (dropWhile whitespace s))"
    by (simp add: trim_def)
  finally show ?thesis by (simp add: trim_def)
qed

lemma notEmpty_trim: "trim s \<noteq> [] \<Longrightarrow> notEmpty (trim s)"
proof -
  assume ne: "trim s \<noteq> []"
  then have "dropWhile whitespace (trim s) \<noteq> []" by (simp add: dropWhile_trim)
  then have "\<not> whitespace (hd (dropWhile whitespace (trim s)))" by (rule hd_dropWhile)
  then have "\<not> whitespace (hd (trim s))" by (simp add: dropWhile_trim)
  then show ?thesis using ne unfolding notEmpty_def by (cases "trim s") auto
qed

lemma logq_simps [simp]:
  "comments (logq a db) = comments db" "posts (logq a db) = posts db"
  "users (logq a db) = users db" "comment_seq (logq a db) = comment_seq db"
  "reactions (logq a db) = reactions db" "queries (logq a db) = queries db @ [a]"
  by (simp_all add: logq_def)

lemma pk_ok_logq [simp]: "pk_ok (logq a db) = pk_ok db"
  by (simp add: pk_ok_def)

lemma depth_of_parent:
  assumes "depth_inv tbl" "truthy par" "findByPk tbl (the par) = Some p"
  shows "\<exists>n\<le>5. hops tbl p n \<and> getCommentDepth tbl par = Some n"
proof -
  have p: "id_c p = the par" "p \<in> set tbl" using findByPk_id[OF assms(3)] by auto
  have par: "par = Some (id_c p)" "id_c p \<noteq> 0"
    using assms(2) p by (auto simp: truthy_def split: option.splits)
  obtain n where n: "n \<le> 5" "hops tbl p n" using assms(1) p(2) by (auto simp: depth_inv_def)
  have "findByPk tbl (id_c p) = Some p" using assms(3) p by simp
  from depth_of_hops[OF n(2) par(2) this] show ?thesis using n par by auto
qed

lemma pk_ok_insert:
  "pk_ok db \<Longrightarrow> id_c c = comment_seq db + 1 \<Longrightarrow>
   pk_ok (db\<lparr>comments := comments db @ [c], comment_seq := comment_seq db + 1\<rparr>)"
  by (fastforce simp: pk_ok_def)

lemma depth_inv_insert:
  assumes "depth_inv tbl"
    and "\<not> truthy (parent_id c) \<or> (\<exists>p d. findByPk tbl (the (parent_id c)) = Some p \<and> hops tbl p d \<and> d < 5)"
  shows "depth_inv (tbl @ [c])"
proof -
  have old: "\<exists>n\<le>5. hops (tbl @ [c]) x n" if "x \<in> set tbl" for x
    using assms(1) that by (auto simp: depth_inv_def intro: hops_append)
  have new: "\<exists>n\<le>5. hops (tbl @ [c]) c n"
  proof (cases "truthy (parent_id c)")
    case False
    then show ?thesis by (auto intro: hops.intros)
  next
    case True
    with assms(2) obtain p d where pd: "findByPk tbl (the (parent_id c)) = Some p" "hops tbl p d" "d < 5"
      by auto
    have "hops (tbl @ [c]) c (Suc d)"
      using True pd by (auto intro!: hops_step[where p = p] hops_append findByPk_append_Some)
    then show ?thesis using pd(3) by (intro exI[of _ "Suc d"]) simp
  qed
  show ?thesis unfolding depth_inv_def using old new by auto
qed

lemma create_and_respond_ok:
  assumes "isLength 1 2000 (trim (b_content b))"
    and "truthy (b_parent_id b) \<Longrightarrow> \<exists>p d. findByPk (comments db) (the (b_parent_id b)) = Some p \<and>
          post_id p = the (b_post_id b) \<and> getCommentDepth (comments db) (b_parent_id b) = Some d \<and> d < 5"
  shows "\<exists>db' x. create_and_respond db (the (b_post_id b)) (the (b_user_id b)) (b_parent_id b)
            (trim (b_content b)) now =
         Some (db', Success 201 x (if truthy (b_parent_id b) then ''Reply created successfully''
                      else ''Comment created successfully'')) \<and>
         comments db' = comments db @ [new_row db b now] \<and> comment_seq db' = comment_seq db + 1 \<and>
         posts db' = posts db \<and> users db' = users db \<and> reactions db' = reactions db"
proof -
  let ?c = "new_row db b now"
  let ?db1 = "logq Q_Comment_create db"
  let ?db2 = "?db1\<lparr>comments := comments ?db1 @ [?c], comment_seq := comment_seq ?db1 + 1\<rparr>"
  have bc: "beforeCreate (comments ?db1) ?c = Some (Inr ())"
    using assms(2) by (cases "truthy (b_parent_id b)") (auto simp: beforeCreate_def new_row_def)
  have ne: "notEmpty (trim (b_content b))"
    using assms(1) by (intro notEmpty_trim) (auto simp: isLength_def)
  have cc: "Comment_create ?db1 (the (b_post_id b)) (the (b_user_id b)) (b_parent_id b)
            (trim (b_content b)) now = Some (Inr (?db2, ?c))"
    using assms(1) ne bc unfolding Comment_create_def Let_def trim_idem new_row_def by simp
  show ?thesis
    unfolding create_and_respond_def cc by (simp add: Let_def)
qed

lemma pk_ok_fields:
  "pk_ok db \<Longrightarrow> comments db' = comments db @ [c] \<Longrightarrow> id_c c = comment_seq db + 1 \<Longrightarrow>
   comment_seq db' = comment_seq db + 1 \<Longrightarrow> pk_ok db'"
  by (fastforce simp: pk_ok_def)

lemma postComment_total:
  assumes "pk_ok db" "depth_inv (comments db)"
  shows "\<exists>db' r. postComment db b now = Some (db', r) \<and> pk_ok db' \<and> depth_inv (comments db')"
proof (cases "post_validators b \<noteq> [] \<or> the (b_post_id b) \<notin> set (posts db) \<or> the (b_user_id b) \<notin> set (users db)")
  case True
  then show ?thesis using assms by (auto simp: postComment_def Let_def)
next
  case ok: False
  then have len: "isLength 1 2000 (trim (b_content b))"
    by (auto simp: post_validators_def split: if_splits)
  let ?db2 = "logq (Q_User_findByPk (the (b_user_id b))) (logq (Q_Post_findByPk (the (b_post_id b))) db)"
  show ?thesis
  proof (cases "truthy (b_parent_id b)")
    case False
    from create_and_respond_ok[OF len, of ?db2 now] False
    obtain db' x where c: "create_and_respond ?db2
        (the (b_post_id b)) (the (b_user_id b)) (b_parent_id b) (trim (b_content b)) now =
       Some (db', Success 201 x ''Comment created successfully'')"
      "comments db' = comments db @ [new_row db b now]" "comment_seq db' = comment_seq db + 1"
      by (auto simp: new_row_def)
    have "pk_ok db'"
      using pk_ok_fields[OF assms(1) c(2) _ c(3)] by (simp add: new_row_def)
    moreover have "depth_inv (comments db')"
      unfolding c(2) using assms(2) False by (intro depth_inv_insert) (auto simp: new_row_def)
    ultimately show ?thesis using ok False c(1) by (simp add: postComment_def Let_def)
  next
    case True
    let ?db3 = "logq (Q_Comment_findByPk (the (b_parent_id b))) ?db2"
    let ?db4 = "logq (Q_Comment_getCommentDepth (the (b_parent_id b))) ?db3"
    show ?thesis
    proof (cases "findByPk (comments db) (the (b_parent_id b))")
      case None
      then show ?thesis using ok True assms by (auto simp: postComment_def Let_def)
    next
      case (Some p)
      from depth_of_parent[OF assms(2) True Some] obtain d where
        d: "d \<le> 5" "hops (comments db) p d" "getCommentDepth (comments db) (b_parent_id b) = Some d"
        by auto
      show ?thesis
      proof (cases "post_id p \<noteq> the (b_post_id b) \<or> 5 \<le> d")
        case True
        then show ?thesis using ok \<open>truthy (b_parent_id b)\<close> Some d assms
          by (auto simp: postComment_def Let_def)
      next
        case False
        have "truthy (b_parent_id b) \<Longrightarrow> \<exists>p d. findByPk (comments ?db4) (the (b_parent_id b)) = Some p \<and>
          post_id p = the (b_post_id b) \<and> getCommentDepth (comments ?db4) (b_parent_id b) = Some d \<and> d < 5"
          using Some d False by auto
        from create_and_respond_ok[OF len this, of now] True
        obtain db' x where c: "create_and_respond ?db4
            (the (b_post_id b)) (the (b_user_id b)) (b_parent_id b) (trim (b_content b)) now =
           Some (db', Success 201 x ''Reply created successfully'')"
          "comments db' = comments db @ [new_row db b now]" "comment_seq db' = comment_seq db + 1"
          by (auto simp: new_row_def)
        have "pk_ok db'"
          using pk_ok_fields[OF assms(1) c(2) _ c(3)] by (simp add: new_row_def)
        moreover have "depth_inv (comments db')"
          unfolding c(2) using assms(2) True Some d False
          by (intro depth_inv_insert) (auto simp: new_row_def)
        ultimately show ?thesis using ok True Some d False c(1)
          by (simp add: postComment_def Let_def)
      qed
    qed
  qed
qed


lemma create_and_respond_no_Failure:
  "create_and_respond db pid uid par txt now = Some (db', r) \<Longrightarrow> r \<noteq> Failure s t msg"
  by (auto simp: create_and_respond_def Let_def split: option.splits sum.splits)

lemma postComment_max_depth_only:
  assumes "postComment db b now = Some (db', Failure s MAX_DEPTH_EXCEEDED msg)"
  shows "reply_admissible db b \<and>
         (\<exists>d\<ge>5. getCommentDepth (comments db) (b_parent_id b) = Some d) \<and> comments db' = comments db"
  using assms
  by (auto simp: postComment_def Let_def reply_admissible_def
           dest: create_and_respond_no_Failure split: if_splits option.splits)

lemma postComment_reply:
  assumes "depth_inv (comments db)" "reply_admissible db b" "postComment db b now = Some (db', r)"
  shows "\<exists>d. parent_depth db b d \<and> getCommentDepth (comments db) (b_parent_id b) = Some d \<and>
     (5 \<le> d \<longrightarrow> r = Failure 400 MAX_DEPTH_EXCEEDED ''Maximum comment nesting depth exceeded (5 levels)''
        \<and> comments db' = comments db) \<and>
     (d \<le> 4 \<longrightarrow> (\<exists>x. r = Success 201 x ''Reply created successfully'') \<and>
        comments db' = comments db @ [new_row db b now] \<and>
        hops (comments db') (new_row db b now) (Suc d))"
proof -
  from assms(2) obtain p where p: "findByPk (comments db) (the (b_parent_id b)) = Some p"
     "post_id p = the (b_post_id b)" and t: "truthy (b_parent_id b)"
     and ok: "post_validators b = []" "the (b_post_id b) \<in> set (posts db)" "the (b_user_id b) \<in> set (users db)"
    by (auto simp: reply_admissible_def split: option.splits)
  from depth_of_parent[OF assms(1) t p(1)] obtain d where
    d: "d \<le> 5" "hops (comments db) p d" "getCommentDepth (comments db) (b_parent_id b) = Some d"
    by auto
  have len: "isLength 1 2000 (trim (b_content b))"
    using ok(1) by (auto simp: post_validators_def split: if_splits)
  let ?db4 = "logq (Q_Comment_getCommentDepth (the (b_parent_id b))) (logq (Q_Comment_findByPk (the (b_parent_id b)))
     (logq (Q_User_findByPk (the (b_user_id b))) (logq (Q_Post_findByPk (the (b_post_id b))) db)))"
  have big: "5 \<le> d \<Longrightarrow> r = Failure 400 MAX_DEPTH_EXCEEDED ''Maximum comment nesting depth exceeded (5 levels)''
        \<and> comments db' = comments db"
    using assms(3) ok t p d by (auto simp: postComment_def Let_def)
  have small: "(\<exists>x. r = Success 201 x ''Reply created successfully'') \<and>
        comments db' = comments db @ [new_row db b now] \<and>
        hops (comments db') (new_row db b now) (Suc d)" if "d \<le> 4"
  proof -
    have "truthy (b_parent_id b) \<Longrightarrow> \<exists>p d. findByPk (comments ?db4) (the (b_parent_id b)) = Some p \<and>
          post_id p = the (b_post_id b) \<and> getCommentDepth (comments ?db4) (b_parent_id b) = Some d \<and> d < 5"
      using p d that by auto
    from create_and_respond_ok[OF len this, of now] t
    obtain db2 x where c: "create_and_respond ?db4
            (the (b_post_id b)) (the (b_user_id b)) (b_parent_id b) (trim (b_content b)) now =
           Some (db2, Success 201 x ''Reply created successfully'')"
          "comments db2 = comments db @ [new_row db b now]"
      by (auto simp: new_row_def)
    have "postComment db b now = Some (db2, Success 201 x ''Reply created successfully'')"
      using ok t p d that c(1) by (simp add: postComment_def Let_def)
    with assms(3) have eq: "db' = db2" "r = Success 201 x ''Reply created successfully''" by auto
    have "hops (comments db @ [new_row db b now]) (new_row db b now) (Suc d)"
      using t p d by (auto intro!: hops_step[where p = p] hops_append findByPk_append_Some simp: new_row_def)
    then show ?thesis using eq c(2) by simp
  qed
  show ?thesis using d p big small by (auto simp: parent_depth_def)
qed



section \<open>Validation and parent checks of POST /api/comments\<close>

text \<open>
  Claim C8. A creation request whose trimmed content is empty or longer than 2000
  characters is answered 400 \<open>VALIDATION_ERROR\<close>, whatever its other fields and whatever
  the store holds; the store that comes back is the store that went in, log of model
  calls included: no post, user or parent lookup ran and no row was written.
\<close>

theorem validation_first:
  assumes "trim (b_content b) = [] \<or> 2000 < length (trim (b_content b))"
  shows "postComment db b now = Some (db, Failure 400 VALIDATION_ERROR ''Validation failed'')"
proof -
  have "\<not> isLength 1 2000 (trim (b_content b))"
    using assms by (auto simp: isLength_def)
  then have "post_validators b \<noteq> []" by (simp add: post_validators_def)
  then show ?thesis by (simp add: postComment_def)
qed

theorem validation_first_witness:
  "trim (b_content (blank_body (Some 1) (Some 1) (Some 6))) = [] \<and>
   postComment (scenario_db scenario_rows) (blank_body (Some 1) (Some 1) (Some 6)) 70 =
     Some (scenario_db scenario_rows, Failure 400 VALIDATION_ERROR ''Validation failed'') \<and>
   queries (scenario_db scenario_rows) = []"
proof -
  have t: "trim (b_content (blank_body (Some 1) (Some 1) (Some 6))) = []"
    by (simp add: blank_body_def trim_def)
  from validation_first[of "blank_body (Some 1) (Some 1) (Some 6)" "scenario_db scenario_rows" 70] t
  show ?thesis by (simp add: scenario_db_def)
qed

lemma create_and_respond_comments:
  assumes "create_and_respond db pid uid par txt now = Some (db', r)" "comments db' \<noteq> comments db"
  shows "truthy par \<longrightarrow> (\<exists>p. findByPk (comments db) (the par) = Some p \<and> post_id p = pid)"
  using assms
  by (auto simp: create_and_respond_def Comment_create_def beforeCreate_def Let_def
           split: option.splits sum.splits if_splits)

text \<open>
  Claim C4. For a creation request that passes validation and names a parent: when no
  comment has the parent's id the answer is 404 \<open>NOT_FOUND\<close> (``Parent comment not
  found'' once the post and the user exist) and nothing is stored; when the post and the
  user exist and the parent belongs to another post the answer is 400 \<open>INVALID_PARENT\<close>
  and nothing is stored; and whenever the table of comments changes, the parent exists
  and belongs to the request's post.
\<close>

theorem parent_validation:
  assumes "post_validators b = []" and "truthy (b_parent_id b)"
  shows "(findByPk (comments db) (the (b_parent_id b)) = None \<longrightarrow>
            (\<exists>db' msg. postComment db b now = Some (db', Failure 404 NOT_FOUND msg) \<and>
               comments db' = comments db \<and>
               (the (b_post_id b) \<in> set (posts db) \<and> the (b_user_id b) \<in> set (users db) \<longrightarrow>
                  msg = ''Parent comment not found''))) \<and>
         (\<forall>p. findByPk (comments db) (the (b_parent_id b)) = Some p \<and>
              post_id p \<noteq> the (b_post_id b) \<and>
              the (b_post_id b) \<in> set (posts db) \<and> the (b_user_id b) \<in> set (users db) \<longrightarrow>
            (\<exists>db'. postComment db b now =
               Some (db', Failure 400 INVALID_PARENT ''Parent comment must belong to the same post'') \<and>
               comments db' = comments db)) \<and>
         (\<forall>db' r. postComment db b now = Some (db', r) \<and> comments db' \<noteq> comments db \<longrightarrow>
            (\<exists>p. findByPk (comments db) (the (b_parent_id b)) = Some p \<and>
                 post_id p = the (b_post_id b)))"
proof (intro conjI allI impI)
  assume "findByPk (comments db) (the (b_parent_id b)) = None"
  then show "\<exists>db' msg. postComment db b now = Some (db', Failure 404 NOT_FOUND msg) \<and>
               comments db' = comments db \<and>
               (the (b_post_id b) \<in> set (posts db) \<and> the (b_user_id b) \<in> set (users db) \<longrightarrow>
                  msg = ''Parent comment not found'')"
    using assms by (auto simp: postComment_def Let_def)
next
  fix p
  assume "findByPk (comments db) (the (b_parent_id b)) = Some p \<and>
              post_id p \<noteq> the (b_post_id b) \<and>
              the (b_post_id b) \<in> set (posts db) \<and> the (b_user_id b) \<in> set (users db)"
  then show "\<exists>db'. postComment db b now =
               Some (db', Failure 400 INVALID_PARENT ''Parent comment must belong to the same post'') \<and>
               comments db' = comments db"
    using assms by (auto simp: postComment_def Let_def)
next
  fix db' r
  assume a: "postComment db b now = Some (db', r) \<and> comments db' \<noteq> comments db"
  show "\<exists>p. findByPk (comments db) (the (b_parent_id b)) = Some p \<and> post_id p = the (b_post_id b)"
  proof (cases "findByPk (comments db) (the (b_parent_id b))")
    case None
    then show ?thesis using a assms by (auto simp: postComment_def Let_def split: if_splits)
  next
    case (Some p)
    then show ?thesis using a assms
      by (auto simp: postComment_def Let_def split: if_splits option.splits
               dest: create_and_respond_comments)
  qed
qed


theorem parent_validation_witness:
  "post_validators cross_post_reply = [] \<and> truthy (b_parent_id cross_post_reply) \<and>
   findByPk (comments two_posts_db) (the (b_parent_id cross_post_reply)) = Some (row 6 (Some 5) 60) \<and>
   (\<exists>db'. postComment two_posts_db cross_post_reply 70 =
       Some (db', Failure 400 INVALID_PARENT ''Parent comment must belong to the same post'') \<and>
     comments db' = comments two_posts_db) \<and>
   post_validators (reply_to 9) = [] \<and> truthy (b_parent_id (reply_to 9)) \<and>
   findByPk (comments (scenario_db scenario_rows)) (the (b_parent_id (reply_to 9))) = None \<and>
   (\<exists>db'. postComment (scenario_db scenario_rows) (reply_to 9) 70 =
       Some (db', Failure 404 NOT_FOUND ''Parent comment not found'') \<and>
     comments db' = comments (scenario_db scenario_rows))"
proof -
  have v1: "post_validators cross_post_reply = []" and t1: "truthy (b_parent_id cross_post_reply)"
    by (simp_all add: cross_post_reply_def reply_to_def post_validators_def isInt_min1_def
        optional_isInt_min1_def isLength_def trim_def whitespace_def truthy_def)
  have f1: "findByPk (comments two_posts_db) (the (b_parent_id cross_post_reply)) = Some (row 6 (Some 5) 60)"
    by (simp add: two_posts_db_def scenario_db_def scenario_rows_def cross_post_reply_def
        reply_to_def findByPk_def row_def)
  have e1: "post_id (row 6 (Some 5) 60) \<noteq> the (b_post_id cross_post_reply) \<and>
      the (b_post_id cross_post_reply) \<in> set (posts two_posts_db) \<and>
      the (b_user_id cross_post_reply) \<in> set (users two_posts_db)"
    by (simp add: two_posts_db_def scenario_db_def cross_post_reply_def reply_to_def row_def)
  have v2: "post_validators (reply_to 9) = []" and t2: "truthy (b_parent_id (reply_to 9))"
    by (simp_all add: reply_to_def post_validators_def isInt_min1_def
        optional_isInt_min1_def isLength_def trim_def whitespace_def truthy_def)
  have f2: "findByPk (comments (scenario_db scenario_rows)) (the (b_parent_id (reply_to 9))) = None"
    by (simp add: scenario_db_def scenario_rows_def reply_to_def findByPk_def row_def)
  have e2: "the (b_post_id (reply_to 9)) \<in> set (posts (scenario_db scenario_rows)) \<and>
      the (b_user_id (reply_to 9)) \<in> set (users (scenario_db scenario_rows))"
    by (simp add: scenario_db_def reply_to_def)
  from parent_validation[OF v1 t1, of two_posts_db 70] f1 e1
  have r1: "\<exists>db'. postComment two_posts_db cross_post_reply 70 =
       Some (db', Failure 400 INVALID_PARENT ''Parent comment must belong to the same post'') \<and>
     comments db' = comments two_posts_db"
    by blast
  from parent_validation[OF v2 t2, of "scenario_db scenario_rows" 70] f2 e2
  have r2: "\<exists>db'. postComment (scenario_db scenario_rows) (reply_to 9) 70 =
       Some (db', Failure 404 NOT_FOUND ''Parent comment not found'') \<and>
     comments db' = comments (scenario_db scenario_rows)"
    by blast
  show ?thesis using v1 t1 f1 r1 v2 t2 f2 r2 by blast
qed

section \<open>Deletion\<close>

lemma references_iff: "references ks c = (\<exists>p. parent_id c = Some p \<and> p \<in> set ks)"
  by (auto simp: references_def split: option.splits)

lemma descends_none:
  assumes "filter (references ks) tbl = []" "descends tbl (set ks) c" "c \<in> set tbl"
  shows False
  using assms(2,3)
proof (induction rule: descends.induct)
  case (direct c p)
  then have "references ks c" by (auto simp: references_iff)
  with direct assms(1) show ?case by (auto simp: filter_empty_conv)
next
  case (via c p q)
  then show ?case by simp
qed

lemma descends_round:
  assumes "c \<in> set tbl"
  shows "descends tbl (set ks) c \<longleftrightarrow>
         references ks c \<or>
         descends (filter (\<lambda>c. \<not> references ks c) tbl) (set (map id_c (filter (references ks) tbl))) c"
    (is "?L \<longleftrightarrow> ?R1 \<or> ?R2")
proof
  assume ?L
  then show "?R1 \<or> ?R2" using assms
  proof (induction rule: descends.induct)
    case (direct c p)
    then show ?case by (auto simp: references_iff)
  next
    case (via c p q)
    show ?case
    proof (cases "references ks q")
      case True
      then have "p \<in> set (map id_c (filter (references ks) tbl))" using via by auto
      then show ?thesis using via.hyps(1) by (auto intro: descends.direct)
    next
      case False
      with via have "descends (filter (\<lambda>c. \<not> references ks c) tbl) (set (map id_c (filter (references ks) tbl))) q"
        by auto
      moreover have "q \<in> set (filter (\<lambda>c. \<not> references ks c) tbl)" using False via by simp
      ultimately show ?thesis using via.hyps(1,3) by (auto intro: descends.via)
    qed
  qed
next
  assume "?R1 \<or> ?R2"
  then show ?L
  proof
    assume ?R1 then show ?L by (auto simp: references_iff intro: descends.direct)
  next
    assume ?R2
    then show ?L
    proof (induction rule: descends.induct)
      case (direct c p)
      then obtain q where "q \<in> set tbl" "references ks q" "id_c q = p" by auto
      then show ?case using direct.hyps(1)
        by (auto simp: references_iff intro: descends.via descends.direct)
    next
      case (via c p q)
      then show ?case by (auto intro: descends.via)
    qed
  qed
qed

lemma cascade_filter: "cascade ks tbl = filter (\<lambda>c. \<not> descends tbl (set ks) c) tbl"
proof (induction ks tbl rule: cascade.induct)
  case (1 ks tbl)
  show ?case
  proof (cases "filter (references ks) tbl = []")
    case True
    then have "filter (\<lambda>c. \<not> descends tbl (set ks) c) tbl = tbl"
      by (auto simp: filter_id_conv dest: descends_none)
    with True show ?thesis by (subst cascade.simps) simp
  next
    case False
    let ?t = "filter (\<lambda>c. \<not> references ks c) tbl"
    let ?k = "map id_c (filter (references ks) tbl)"
    have "cascade ks tbl = cascade ?k ?t" using False by (subst cascade.simps) simp
    also have "\<dots> = filter (\<lambda>c. \<not> descends ?t (set ?k) c) ?t" using 1 False by simp
    also have "\<dots> = filter (\<lambda>c. \<not> descends tbl (set ks) c) tbl"
      unfolding filter_filter by (rule filter_cong) (auto simp: descends_round)
    finally show ?thesis .
  qed
qed

lemma descends_without:
  assumes "descends tbl K c"
  shows "descends (filter (\<lambda>x. id_c x \<notin> K) tbl) K c"
  using assms
proof (induction rule: descends.induct)
  case (direct c p)
  then show ?case by (rule descends.direct)
next
  case (via c p q)
  show ?case
  proof (cases "p \<in> K")
    case True
    with via.hyps(1) show ?thesis by (rule descends.direct)
  next
    case False
    then have "q \<in> set (filter (\<lambda>x. id_c x \<notin> K) tbl)" using via by simp
    then show ?thesis using via by (auto intro: descends.via)
  qed
qed

lemma descends_mono: "descends (filter P tbl) K c \<Longrightarrow> descends tbl K c"
  by (induction rule: descends.induct) (auto intro: descends.intros)

lemma destroy_comments:
  "comments (Comment_destroy db c) =
     filter (\<lambda>x. id_c x \<noteq> id_c c \<and> \<not> descends (comments db) {id_c c} x) (comments db)"
proof -
  have "descends (filter (\<lambda>x. id_c x \<noteq> id_c c) (comments db)) {id_c c} x =
        descends (comments db) {id_c c} x" for x
    using descends_without[of "comments db" "{id_c c}" x]
          descends_mono[of "\<lambda>x. id_c x \<noteq> id_c c" "comments db" "{id_c c}" x]
    by auto
  then show ?thesis
    by (simp add: Comment_destroy_def Let_def cascade_filter conj_commute)
qed

text \<open>
  Claim C7. Deleting a comment id that no row carries answers 404 \<open>NOT_FOUND\<close> and
  leaves the table as it is. Otherwise the rows that remain are exactly those that are
  neither the comment nor among its descendants at any depth, and the message counts
  the direct children only: ``along with N replies'' for N direct children, nothing
  after ``successfully'' for none.
\<close>

theorem delete_cascade:
  assumes "1 \<le> k"
  shows "(findByPk (comments db) k = None \<longrightarrow>
            (\<exists>db'. deleteComment db k = (db', Failure 404 NOT_FOUND ''Comment not found'') \<and>
               comments db' = comments db)) \<and>
         (\<forall>c. findByPk (comments db) k = Some c \<longrightarrow>
            (\<exists>db'. deleteComment db k =
               (db', Success 200 ()
                  (''Comment deleted successfully'' @
                   (if length (direct_children (comments db) k) > 0
                    then '' along with '' @ show_nat (length (direct_children (comments db) k)) @ '' replies''
                    else ''''))) \<and>
               comments db' =
                 filter (\<lambda>x. id_c x \<noteq> k \<and> \<not> descends (comments db) {k} x) (comments db)))"
proof (intro conjI allI impI)
  assume "findByPk (comments db) k = None"
  then show "\<exists>db'. deleteComment db k = (db', Failure 404 NOT_FOUND ''Comment not found'') \<and>
               comments db' = comments db"
    using assms by (simp add: deleteComment_def Let_def)
next
  fix c assume c: "findByPk (comments db) k = Some c"
  then have "id_c c = k" by (auto simp: findByPk_def find_Some_iff)
  then show "\<exists>db'. deleteComment db k =
               (db', Success 200 ()
                  (''Comment deleted successfully'' @
                   (if length (direct_children (comments db) k) > 0
                    then '' along with '' @ show_nat (length (direct_children (comments db) k)) @ '' replies''
                    else ''''))) \<and>
               comments db' =
                 filter (\<lambda>x. id_c x \<noteq> k \<and> \<not> descends (comments db) {k} x) (comments db)"
    using assms c
    by (simp add: deleteComment_def Let_def destroy_comments direct_children_def)
qed






theorem delete_cascade_witness:
  "(1::nat) \<le> 1 \<and>
   findByPk (comments (scenario_db (scenario_rows @ [row 7 (Some 6) 70]))) 1 = Some (row 1 None 10) \<and>
   length (direct_children (comments (scenario_db (scenario_rows @ [row 7 (Some 6) 70]))) 1) = 1 \<and>
   (\<exists>db'. deleteComment (scenario_db (scenario_rows @ [row 7 (Some 6) 70])) 1 =
       (db', Success 200 () ''Comment deleted successfully along with 1 replies'') \<and>
     comments db' = [row 2 None 20] \<and>
     comments db' =
       filter (\<lambda>x. id_c x \<noteq> 1 \<and>
                 \<not> descends (comments (scenario_db (scenario_rows @ [row 7 (Some 6) 70]))) {1} x)
         (comments (scenario_db (scenario_rows @ [row 7 (Some 6) 70]))))"
proof -
  let ?db = "scenario_db (scenario_rows @ [row 7 (Some 6) 70])"
  have f: "findByPk (comments ?db) 1 = Some (row 1 None 10)"
    by (simp add: scenario_db_def scenario_rows_def row_def findByPk_def)
  have n: "length (direct_children (comments ?db) 1) = 1"
    by (simp add: direct_children_def scenario_db_def scenario_rows_def row_def)
  have e: "comments (fst (deleteComment ?db 1)) = [row 2 None 20]"
    by (simp add: deleteComment_def scenario_db_def scenario_rows_def row_def references_def
        findByPk_def Let_def Comment_destroy_def logq_def cascade.simps)
  have g: "(1::nat) \<le> 1" by simp
  from delete_cascade[OF g, of ?db] f obtain db' where
    d: "deleteComment ?db 1 =
         (db', Success 200 ()
            (''Comment deleted successfully'' @
             (if length (direct_children (comments ?db) 1) > 0
              then '' along with '' @ show_nat (length (direct_children (comments ?db) 1)) @ '' replies''
              else '''')))"
    and c: "comments db' = filter (\<lambda>x. id_c x \<noteq> 1 \<and> \<not> descends (comments ?db) {1} x) (comments ?db)"
    by blast
  have d': "deleteComment ?db 1 =
      (db', Success 200 () ''Comment deleted successfully along with 1 replies'')"
    unfolding d n by (simp add: show_nat.simps)
  have "comments db' = [row 2 None 20]" using d' e by simp
  then show ?thesis using f n d' c by blast
qed

section \<open>The depth bound\<close>

lemma find_filter: "find P xs = Some p \<Longrightarrow> Q p \<Longrightarrow> find P (filter Q xs) = Some p"
  by (induction xs) (auto split: if_splits)

lemma hops_after_delete:
  assumes "hops tbl c n" "id_c c \<noteq> k" "\<not> descends tbl {k} c"
  shows "hops (filter (\<lambda>x. id_c x \<noteq> k \<and> \<not> descends tbl {k} x) tbl) c n"
  using assms
proof (induction rule: hops.induct)
  case (hops_root c)
  then show ?case by (auto intro: hops.intros)
next
  case (hops_step c p n)
  let ?Q = "\<lambda>x. id_c x \<noteq> k \<and> \<not> descends tbl {k} x"
  have p: "id_c p = the (parent_id c)" "p \<in> set tbl" using findByPk_id[OF hops_step.hyps(2)] by auto
  have par: "parent_id c = Some (id_c p)"
    using hops_step.hyps(1) p(1) by (auto simp: truthy_def split: option.splits)
  have 1: "id_c p \<noteq> k"
    using hops_step.prems(2) par by (auto intro: descends.direct)
  have 2: "\<not> descends tbl {k} p"
    using hops_step.prems(2) par p(2) by (auto intro: descends.via)
  have "findByPk (filter ?Q tbl) (the (parent_id c)) = Some p"
    using hops_step.hyps(2) 1 2 unfolding findByPk_def by (intro find_filter) auto
  moreover have "hops (filter ?Q tbl) p n" using hops_step.IH 1 2 by simp
  ultimately show ?case using hops_step.hyps(1) by (auto intro: hops.hops_step)
qed

lemma depth_inv_empty: "depth_inv []"
  by (simp add: depth_inv_def)

lemma delete_preserves_depth:
  assumes "depth_inv (comments db)"
  shows "depth_inv (comments (fst (deleteComment db k)))"
proof (cases "1 \<le> k")
  case False
  then show ?thesis using assms by (simp add: deleteComment_def)
next
  case True
  show ?thesis
  proof (cases "findByPk (comments db) k")
    case None
    then show ?thesis using assms True by (simp add: deleteComment_def Let_def)
  next
    case (Some c)
    then have k: "id_c c = k" using findByPk_id by auto
    have "comments (fst (deleteComment db k)) =
        filter (\<lambda>x. id_c x \<noteq> k \<and> \<not> descends (comments db) {k} x) (comments db)"
      using True Some k by (simp add: deleteComment_def Let_def destroy_comments)
    then show ?thesis using assms
      by (auto simp: depth_inv_def intro: hops_after_delete)
  qed
qed


lemma pk_ok_delete: "pk_ok db \<Longrightarrow> pk_ok (fst (deleteComment db k))"
proof (cases "1 \<le> k")
  case False
  assume "pk_ok db"
  then show ?thesis using False by (simp add: deleteComment_def)
next
  case True
  assume a: "pk_ok db"
  show ?thesis
  proof (cases "findByPk (comments db) k")
    case None
    then show ?thesis using a True by (simp add: deleteComment_def Let_def)
  next
    case (Some c)
    let ?db' = "Comment_destroy (logq (Q_Comment_destroy (id_c c)) (logq (Q_Comment_count k) (logq (Q_Comment_findByPk k) db))) c"
    have c: "comments ?db' =
        filter (\<lambda>x. id_c x \<noteq> id_c c \<and> \<not> descends (comments db) {id_c c} x) (comments db)"
      by (simp add: destroy_comments)
    have s: "comment_seq ?db' = comment_seq db"
      by (simp add: Comment_destroy_def Let_def)
    have "pk_ok ?db'"
      using a unfolding pk_ok_def c s by (auto simp: distinct_map_filter)
    then show ?thesis using True Some by (simp add: deleteComment_def Let_def)
  qed
qed

lemma scenario_hops:
  "hops (scenario_rows @ [row 7 (Some 6) 70]) (row 1 None 10) 0"
  "hops (scenario_rows @ [row 7 (Some 6) 70]) (row 2 None 20) 0"
  "hops (scenario_rows @ [row 7 (Some 6) 70]) (row 3 (Some 1) 30) 1"
  "hops (scenario_rows @ [row 7 (Some 6) 70]) (row 4 (Some 3) 40) 2"
  "hops (scenario_rows @ [row 7 (Some 6) 70]) (row 5 (Some 4) 50) 3"
  "hops (scenario_rows @ [row 7 (Some 6) 70]) (row 6 (Some 5) 60) 4"
  "hops (scenario_rows @ [row 7 (Some 6) 70]) (row 7 (Some 6) 70) 5"
proof -
  let ?t = "scenario_rows @ [row 7 (Some 6) 70]"
  show 1: "hops ?t (row 1 None 10) 0" by (rule hops_root) (simp add: row_def truthy_def)
  show "hops ?t (row 2 None 20) 0" by (rule hops_root) (simp add: row_def truthy_def)
  have 3: "hops ?t (row 3 (Some 1) 30) (Suc 0)"
    by (rule hops_step[OF _ _ 1]) (simp_all add: row_def truthy_def findByPk_def scenario_rows_def)
  have 4: "hops ?t (row 4 (Some 3) 40) (Suc (Suc 0))"
    by (rule hops_step[OF _ _ 3]) (simp_all add: row_def truthy_def findByPk_def scenario_rows_def)
  have 5: "hops ?t (row 5 (Some 4) 50) (Suc (Suc (Suc 0)))"
    by (rule hops_step[OF _ _ 4]) (simp_all add: row_def truthy_def findByPk_def scenario_rows_def)
  have 6: "hops ?t (row 6 (Some 5) 60) (Suc (Suc (Suc (Suc 0))))"
    by (rule hops_step[OF _ _ 5]) (simp_all add: row_def truthy_def findByPk_def scenario_rows_def)
  have 7: "hops ?t (row 7 (Some 6) 70) (Suc (Suc (Suc (Suc (Suc 0)))))"
    by (rule hops_step[OF _ _ 6]) (simp_all add: row_def truthy_def findByPk_def scenario_rows_def)
  show "hops ?t (row 3 (Some 1) 30) 1" "hops ?t (row 4 (Some 3) 40) 2" "hops ?t (row 5 (Some 4) 50) 3"
    "hops ?t (row 6 (Some 5) 60) 4" "hops ?t (row 7 (Some 6) 70) 5"
    using 3 4 5 6 7 by (simp_all add: numeral_eq_Suc)
qed

text \<open>
  Claim C1. Starting from a store whose comments are all at most 5 hops deep (the empty
  store is one), every creation request returns, and the store it leaves again has
  every comment at most 5 hops deep. A reply whose parent passes the existence and
  same-post checks has its parent's depth computed by \<open>getCommentDepth\<close> as the
  number of hops; it is refused with 400 \<open>MAX_DEPTH_EXCEEDED\<close> when that depth is 5
  or more and inserted, one hop deeper than its parent, when it is at most 4; and
  \<open>MAX_DEPTH_EXCEEDED\<close> is answered in no other case. Deleting a comment, the other
  operation that changes the table's parent links, keeps the bound as well.
\<close>

theorem depth_invariant:
  assumes "pk_ok db" and "depth_inv (comments db)"
  shows "(\<exists>db' r. postComment db b now = Some (db', r) \<and> pk_ok db' \<and> depth_inv (comments db') \<and>
     (reply_admissible db b \<longrightarrow>
        (\<exists>d. parent_depth db b d \<and> getCommentDepth (comments db) (b_parent_id b) = Some d \<and>
           (5 \<le> d \<longrightarrow> r = Failure 400 MAX_DEPTH_EXCEEDED ''Maximum comment nesting depth exceeded (5 levels)''
              \<and> comments db' = comments db) \<and>
           (d \<le> 4 \<longrightarrow> (\<exists>x. r = Success 201 x ''Reply created successfully'') \<and>
              comments db' = comments db @ [new_row db b now] \<and>
              hops (comments db') (new_row db b now) (Suc d)))) \<and>
     (\<forall>s msg. r = Failure s MAX_DEPTH_EXCEEDED msg \<longrightarrow>
        reply_admissible db b \<and> (\<exists>d\<ge>5. parent_depth db b d))) \<and>
     pk_ok (fst (deleteComment db k)) \<and> depth_inv (comments (fst (deleteComment db k)))"
proof -
  from postComment_total[OF assms, of b now] obtain db' r where
    run: "postComment db b now = Some (db', r)" and inv: "pk_ok db'" "depth_inv (comments db')"
    by auto
  have a: "reply_admissible db b \<Longrightarrow>
        (\<exists>d. parent_depth db b d \<and> getCommentDepth (comments db) (b_parent_id b) = Some d \<and>
           (5 \<le> d \<longrightarrow> r = Failure 400 MAX_DEPTH_EXCEEDED ''Maximum comment nesting depth exceeded (5 levels)''
              \<and> comments db' = comments db) \<and>
           (d \<le> 4 \<longrightarrow> (\<exists>x. r = Success 201 x ''Reply created successfully'') \<and>
              comments db' = comments db @ [new_row db b now] \<and>
              hops (comments db') (new_row db b now) (Suc d)))"
    using postComment_reply[OF assms(2) _ run] by blast
  have b: "reply_admissible db b \<and> (\<exists>d\<ge>5. parent_depth db b d)"
    if "r = Failure s MAX_DEPTH_EXCEEDED msg" for s msg
  proof -
    from postComment_max_depth_only[OF run[unfolded that]] have
      adm: "reply_admissible db b" and "\<exists>d\<ge>5. getCommentDepth (comments db) (b_parent_id b) = Some d"
      by auto
    then obtain d where d: "5 \<le> d" "getCommentDepth (comments db) (b_parent_id b) = Some d" by auto
    from a[OF adm] d show ?thesis using adm by auto
  qed
  have "\<exists>db' r. postComment db b now = Some (db', r) \<and> pk_ok db' \<and> depth_inv (comments db') \<and>
     (reply_admissible db b \<longrightarrow>
        (\<exists>d. parent_depth db b d \<and> getCommentDepth (comments db) (b_parent_id b) = Some d \<and>
           (5 \<le> d \<longrightarrow> r = Failure 400 MAX_DEPTH_EXCEEDED ''Maximum comment nesting depth exceeded (5 levels)''
              \<and> comments db' = comments db) \<and>
           (d \<le> 4 \<longrightarrow> (\<exists>x. r = Success 201 x ''Reply created successfully'') \<and>
              comments db' = comments db @ [new_row db b now] \<and>
              hops (comments db') (new_row db b now) (Suc d)))) \<and>
     (\<forall>s msg. r = Failure s MAX_DEPTH_EXCEEDED msg \<longrightarrow>
        reply_admissible db b \<and> (\<exists>d\<ge>5. parent_depth db b d))"
    using run inv a b by blast
  then show ?thesis
    using pk_ok_delete[OF assms(1)] delete_preserves_depth[OF assms(2)] by blast
qed

theorem depth_invariant_witness:
  "pk_ok (scenario_db (scenario_rows @ [row 7 (Some 6) 70])) \<and>
   depth_inv (scenario_rows @ [row 7 (Some 6) 70]) \<and>
   reply_admissible (scenario_db (scenario_rows @ [row 7 (Some 6) 70])) (reply_to 7) \<and>
   parent_depth (scenario_db (scenario_rows @ [row 7 (Some 6) 70])) (reply_to 7) 5 \<and>
   (\<exists>db'. postComment (scenario_db (scenario_rows @ [row 7 (Some 6) 70])) (reply_to 7) 80 =
       Some (db', Failure 400 MAX_DEPTH_EXCEEDED ''Maximum comment nesting depth exceeded (5 levels)'') \<and>
     comments db' = scenario_rows @ [row 7 (Some 6) 70] \<and> depth_inv (comments db'))"
proof -
  let ?t = "scenario_rows @ [row 7 (Some 6) 70]"
  let ?db = "scenario_db ?t"
  have h1: "pk_ok ?db"
    by (simp add: pk_ok_def scenario_db_def scenario_rows_def row_def)
  have "depth_inv ?t"
    unfolding depth_inv_def
  proof
    fix c assume "c \<in> set ?t"
    then consider "c = row 1 None 10" | "c = row 2 None 20" | "c = row 3 (Some 1) 30"
      | "c = row 4 (Some 3) 40" | "c = row 5 (Some 4) 50" | "c = row 6 (Some 5) 60"
      | "c = row 7 (Some 6) 70"
      by (auto simp: scenario_rows_def)
    then show "\<exists>n\<le>5. hops ?t c n"
    proof cases
      case 1 then show ?thesis using scenario_hops(1) by (intro exI[of _ 0]) simp
    next
      case 2 then show ?thesis using scenario_hops(2) by (intro exI[of _ 0]) simp
    next
      case 3 then show ?thesis using scenario_hops(3) by (intro exI[of _ 1]) simp
    next
      case 4 then show ?thesis using scenario_hops(4) by (intro exI[of _ 2]) simp
    next
      case 5 then show ?thesis using scenario_hops(5) by (intro exI[of _ 3]) simp
    next
      case 6 then show ?thesis using scenario_hops(6) by (intro exI[of _ 4]) simp
    next
      case 7 then show ?thesis using scenario_hops(7) by (intro exI[of _ 5]) simp
    qed
  qed
  then have h2: "depth_inv (comments ?db)" by (simp add: scenario_db_def)
  have find: "findByPk ?t 7 = Some (row 7 (Some 6) 70)"
    by (simp add: findByPk_def scenario_rows_def row_def)
  have h3: "reply_admissible ?db (reply_to 7)"
    using find
    by (simp add: reply_admissible_def scenario_db_def reply_to_def post_validators_def
        isInt_min1_def optional_isInt_min1_def isLength_def trim_def whitespace_def truthy_def row_def)
  have h4: "parent_depth ?db (reply_to 7) 5"
    using find scenario_hops(7) by (simp add: parent_depth_def scenario_db_def reply_to_def)
  from depth_invariant[OF h1 h2, of "reply_to 7" 80 1] h3 obtain db' r d where
    run: "postComment ?db (reply_to 7) 80 = Some (db', r)" and inv: "depth_inv (comments db')"
    and d: "parent_depth ?db (reply_to 7) d"
    and deep: "5 \<le> d \<longrightarrow> r = Failure 400 MAX_DEPTH_EXCEEDED
        ''Maximum comment nesting depth exceeded (5 levels)'' \<and> comments db' = comments ?db"
    by blast
  have "d = 5"
    using d h4 find by (auto simp: parent_depth_def scenario_db_def reply_to_def dest: hops_unique)
  with deep run inv h1 \<open>depth_inv ?t\<close> h3 h4 show ?thesis
    by (simp add: scenario_db_def)
qed


section \<open>Plain objects and ordered queries\<close>

text \<open>
  The plain object of \<open>toJSON\<close> carries no reactions, whatever the query included:
  the groups that the Sequelize routes count over it are empty.
\<close>

lemma count_reactions_toJSON: "count_reactions with_users (toJSON i) = []"
  by (simp add: count_reactions_def toJSON_def)

lemma mset_arrange: "mset (arrange f rows) = mset rows"
  by (simp add: arrange_def)

lemma arrange_id: "arrange (\<lambda>rows. rows) xs = xs"
  by (simp add: arrange_def)

lemma mset_order_by_created: "mset (order_by_created f sort' rows) = mset rows"
  by (simp add: order_by_created_def mset_arrange)

lemma set_order_by_created: "set (order_by_created f sort' rows) = set rows"
  using mset_order_by_created[of f sort' rows] by (rule mset_eq_setD)

lemma length_order_by_created: "length (order_by_created f sort' rows) = length rows"
  using mset_order_by_created[of f sort' rows] by (rule mset_eq_length)

lemma order_by_created_sorted:
  "sorted (map (\<lambda>c. if sort' = ''newest'' then - created_at c else created_at c)
             (order_by_created f sort' rows))"
  by (simp add: order_by_created_def)

text \<open>
  Every list of the rows that is ordered by the key is the answer of the query for some
  order of the database: the model leaves the order of equal timestamps open.
\<close>

lemma order_by_created_any:
  assumes "mset L = mset rows"
    and "sorted (map (\<lambda>c. if sort' = ''newest'' then - created_at c else created_at c) L)"
  shows "order_by_created (\<lambda>_. L) sort' rows = L"
proof -
  have "arrange (\<lambda>_. L) rows = L" using assms(1) by (simp add: arrange_def)
  then show ?thesis
    using assms(2) by (cases "sort' = ''newest''") (simp_all add: order_by_created_def sort_key_id_if_sorted)
qed

lemma order_by_created_newest:
  "sorted_wrt (\<lambda>a b. created_at b \<le> created_at a) (order_by_created f ''newest'' rows)"
  using order_by_created_sorted[of "''newest''" f rows] by (simp add: sorted_wrt_map)

lemma order_by_created_oldest:
  "sort' \<noteq> ''newest'' \<Longrightarrow>
   sorted_wrt (\<lambda>a b. created_at a \<le> created_at b) (order_by_created f sort' rows)"
  using order_by_created_sorted[of sort' f rows] by (simp add: sorted_wrt_map)

lemma sorted_wrt_take_drop:
  "sorted_wrt R xs \<Longrightarrow>
   sorted_wrt R (take n xs) \<and> (\<forall>a\<in>set (take n xs). \<forall>b\<in>set (drop n xs). R a b)"
  using sorted_wrt_append[of R "take n xs" "drop n xs"] by simp


section \<open>Reading a comment and its replies\<close>

lemma findByPk_None_iff: "findByPk tbl k = None \<longleftrightarrow> k \<notin> id_c ` set tbl"
  by (auto simp: findByPk_def find_None_iff)

text \<open>
  Claim C10. For a positive integer id, \<open>GET /api/comments/:id\<close> answers 404
  \<open>NOT_FOUND\<close> exactly when no row of the table has that id. A row that exists is
  returned as the data of a 200 response whatever its \<open>is_published\<close> flag; the flag
  filters only the replies that are joined to it.
\<close>

theorem getComment_found:
  assumes "1 \<le> k"
  shows "((\<exists>db' msg. getComment db k = (db', Failure 404 NOT_FOUND msg)) \<longleftrightarrow>
            k \<notin> id_c ` set (comments db)) \<and>
         (\<forall>c. findByPk (comments db) k = Some c \<longrightarrow>
            (\<exists>db' d. getComment db k = (db', Success 200 d '''') \<and> cj_comment d = c \<and>
               cj_replies d =
                 filter (\<lambda>x. parent_id x = Some k \<and> is_published x) (comments db)))"
proof (cases "findByPk (comments db) k")
  case None
  then have "k \<notin> id_c ` set (comments db)" by (simp add: findByPk_None_iff)
  then show ?thesis using assms None
    by (simp add: getComment_def Let_def)
next
  case (Some c)
  then have "id_c c = k" "k \<in> id_c ` set (comments db)"
    using findByPk_id[OF Some] by auto
  then show ?thesis using assms Some
    by (auto simp: getComment_def Let_def toJSON_def)
qed

theorem getComment_found_witness:
  "(1::nat) \<le> 8 \<and> findByPk (comments (scenario_db (scenario_rows @ [row 7 (Some 6) 70, hidden_row]))) 8 = Some hidden_row \<and>
   \<not> is_published hidden_row \<and>
   (\<exists>db' d. getComment (scenario_db (scenario_rows @ [row 7 (Some 6) 70, hidden_row])) 8 =
        (db', Success 200 d '''') \<and> cj_comment d = hidden_row) \<and>
   9 \<notin> id_c ` set (comments (scenario_db (scenario_rows @ [row 7 (Some 6) 70, hidden_row]))) \<and>
   (\<exists>db' msg. getComment (scenario_db (scenario_rows @ [row 7 (Some 6) 70, hidden_row])) 9 =
        (db', Failure 404 NOT_FOUND msg))"
proof -
  let ?db = "scenario_db (scenario_rows @ [row 7 (Some 6) 70, hidden_row])"
  have f: "findByPk (comments ?db) 8 = Some hidden_row"
    by (simp add: scenario_db_def scenario_rows_def row_def hidden_row_def findByPk_def)
  have h: "\<not> is_published hidden_row" by (simp add: hidden_row_def)
  have n: "9 \<notin> id_c ` set (comments ?db)"
    by (simp add: scenario_db_def scenario_rows_def row_def hidden_row_def)
  from getComment_found[of 8 ?db] f
  have a: "\<exists>db' d. getComment ?db 8 = (db', Success 200 d '''') \<and> cj_comment d = hidden_row"
    by auto
  from getComment_found[of 9 ?db] n
  have b: "\<exists>db' msg. getComment ?db 9 = (db', Failure 404 NOT_FOUND msg)"
    by simp
  show ?thesis using f h a n b by simp
qed

text \<open>
  Claim C9, as stated, fails: in the scenario the replies of A are listed as C alone,
  while D is a published comment that descends from A through C.
\<close>

theorem getReplies_counterexample:
  "snd (getReplies (scenario_db scenario_rows) 1 default_query) =
     Success 200 \<lparr>parent_comment_id = 1,
                  rs_replies = [\<lparr>rj_comment = row 3 (Some 1) 30, rj_reaction_counts = []\<rparr>],
                  rs_total_count = 1, rs_sort = ''oldest''\<rparr> '''' \<and>
   row 4 (Some 3) 40 \<in> set (comments (scenario_db scenario_rows)) \<and>
   is_published (row 4 (Some 3) 40) \<and>
   descends (comments (scenario_db scenario_rows)) {1} (row 4 (Some 3) 40)"
proof -
  have "descends scenario_rows {1} (row 3 (Some 1) 30)"
    by (rule descends.direct[where p = 1]) (simp_all add: row_def)
  then have "descends scenario_rows {1} (row 4 (Some 3) 40)"
    by (rule descends.via[where p = 3, rotated 3]) (simp_all add: row_def scenario_rows_def)
  then show ?thesis
    by (simp add: getReplies_def default_query_def sort_valid_def limit_valid_def
        or_default_sort_def or_default_def scenario_db_def scenario_rows_def row_def
        findByPk_def order_by_created_def arrange_id toJSON_def count_reactions_def logq_def Let_def)
qed

text \<open>
  Claim C9, amended. For valid parameters the replies listing answers 404 exactly when
  the comment is absent. Otherwise it answers 200 with a flat list of published direct
  children of the comment (rows whose \<open>parent_id\<close> is the id) and nothing deeper: the
  list and the published direct children it leaves out make up the published direct
  children of the table; its length is \<open>limit\<close> (20 when absent) or the number of
  these children when they are fewer; its \<open>created_at\<close> are non-increasing for
  \<open>sort\<close> newest and non-decreasing otherwise; and no child that is left out comes
  before a listed one in that order.
\<close>

theorem getReplies_direct:
  assumes "1 \<le> k" and "sort_valid (q_sort q)" and "limit_valid 50 (q_limit q)"
  shows "((\<exists>db' msg. getReplies db k q = (db', Failure 404 NOT_FOUND msg)) \<longleftrightarrow>
            k \<notin> id_c ` set (comments db)) \<and>
         (k \<in> id_c ` set (comments db) \<longrightarrow>
            (\<exists>db' d rest. getReplies db k q = (db', Success 200 d '''') \<and>
               parent_comment_id d = k \<and> rs_total_count d = length (rs_replies d) \<and>
               mset (map rj_comment (rs_replies d)) + mset rest =
                 mset (published_children (comments db) k) \<and>
               length (rs_replies d) =
                 min (or_default (q_limit q) 20) (length (published_children (comments db) k)) \<and>
               (q_sort q = Some ''newest'' \<longrightarrow>
                  sorted_wrt (\<lambda>a b. created_at b \<le> created_at a) (map rj_comment (rs_replies d)) \<and>
                  (\<forall>a\<in>set (map rj_comment (rs_replies d)). \<forall>b\<in>set rest.
                     created_at b \<le> created_at a)) \<and>
               (q_sort q \<noteq> Some ''newest'' \<longrightarrow>
                  sorted_wrt (\<lambda>a b. created_at a \<le> created_at b) (map rj_comment (rs_replies d)) \<and>
                  (\<forall>a\<in>set (map rj_comment (rs_replies d)). \<forall>b\<in>set rest.
                     created_at a \<le> created_at b))))"
proof (cases "findByPk (comments db) k")
  case None
  then have "k \<notin> id_c ` set (comments db)" by (simp add: findByPk_None_iff)
  then show ?thesis using assms None
    by (simp add: getReplies_def Let_def)
next
  case (Some c)
  then have k: "k \<in> id_c ` set (comments db)"
    using findByPk_id[OF Some] by auto
  let ?l = "or_default (q_limit q) 20"
  let ?s = "or_default_sort (q_sort q)"
  let ?ch = "published_children (comments db) k"
  let ?db2 = "logq Q_Comment_findAll (logq (Q_Comment_findByPk k) db)"
  let ?L = "order_by_created (scan db) ?s ?ch"
  let ?rs = "take ?l ?L"
  let ?rest = "drop ?l ?L"
  define d where "d = \<lparr>parent_comment_id = k,
      rs_replies = map (\<lambda>reply.
          let replyJson = toJSON \<lparr>i_comment = reply, i_replies = None,
                                  i_reactions = Some (reactions_of ?db2 (id_c reply))\<rparr>
          in \<lparr>rj_comment = o_comment replyJson,
              rj_reaction_counts = count_reactions False replyJson\<rparr>) ?rs,
      rs_total_count = length ?rs, rs_sort = ?s\<rparr>"
  have run: "getReplies db k q = (?db2, Success 200 d '''')"
    using assms Some unfolding d_def
    by (simp add: getReplies_def Let_def published_children_def logq_def)
  have m: "map rj_comment (rs_replies d) = ?rs"
    unfolding d_def by (simp add: o_def toJSON_def Let_def)
  have len: "length (rs_replies d) = min ?l (length ?ch)"
    unfolding d_def by (simp add: length_order_by_created min.commute)
  have fields: "parent_comment_id d = k" "rs_total_count d = length (rs_replies d)"
    unfolding d_def by simp_all
  have "mset ?rs + mset ?rest = mset ?L"
    by (simp flip: mset_append)
  then have parts: "mset ?rs + mset ?rest = mset ?ch"
    by (simp add: mset_order_by_created)
  have newest: "sorted_wrt (\<lambda>a b. created_at b \<le> created_at a) ?rs \<and>
      (\<forall>a\<in>set ?rs. \<forall>b\<in>set ?rest. created_at b \<le> created_at a)"
    if "q_sort q = Some ''newest''"
  proof -
    have "?s = ''newest''" using that by (simp add: or_default_sort_def)
    then show ?thesis
      using sorted_wrt_take_drop[OF order_by_created_newest[of "scan db" ?ch], of ?l] by simp
  qed
  have oldest: "sorted_wrt (\<lambda>a b. created_at a \<le> created_at b) ?rs \<and>
      (\<forall>a\<in>set ?rs. \<forall>b\<in>set ?rest. created_at a \<le> created_at b)"
    if "q_sort q \<noteq> Some ''newest''"
  proof -
    have "?s \<noteq> ''newest''"
      using that assms(2) by (auto simp: or_default_sort_def sort_valid_def split: option.splits)
    then show ?thesis
      using sorted_wrt_take_drop[OF order_by_created_oldest[of ?s "scan db" ?ch], of ?l] by simp
  qed
  have "\<exists>db' d rest. getReplies db k q = (db', Success 200 d '''') \<and>
               parent_comment_id d = k \<and> rs_total_count d = length (rs_replies d) \<and>
               mset (map rj_comment (rs_replies d)) + mset rest = mset ?ch \<and>
               length (rs_replies d) = min ?l (length ?ch) \<and>
               (q_sort q = Some ''newest'' \<longrightarrow>
                  sorted_wrt (\<lambda>a b. created_at b \<le> created_at a) (map rj_comment (rs_replies d)) \<and>
                  (\<forall>a\<in>set (map rj_comment (rs_replies d)). \<forall>b\<in>set rest.
                     created_at b \<le> created_at a)) \<and>
               (q_sort q \<noteq> Some ''newest'' \<longrightarrow>
                  sorted_wrt (\<lambda>a b. created_at a \<le> created_at b) (map rj_comment (rs_replies d)) \<and>
                  (\<forall>a\<in>set (map rj_comment (rs_replies d)). \<forall>b\<in>set rest.
                     created_at a \<le> created_at b))"
    apply (rule exI[of _ ?db2], rule exI[of _ d], rule exI[of _ ?rest])
    unfolding m using run fields len parts newest oldest by blast
  moreover have "\<not> (\<exists>db' msg. getReplies db k q = (db', Failure 404 NOT_FOUND msg))"
    using run by simp
  ultimately show ?thesis using k by blast
qed

theorem getReplies_direct_witness:
  "(1::nat) \<le> 1 \<and> sort_valid (q_sort newest_one_query) \<and>
   limit_valid 50 (q_limit newest_one_query) \<and>
   1 \<in> id_c ` set (comments two_replies_db) \<and> q_sort newest_one_query = Some ''newest'' \<and>
   published_children (comments two_replies_db) 1 = [row 3 (Some 1) 30, row 7 (Some 1) 70] \<and>
   (\<exists>db' d rest. getReplies two_replies_db 1 newest_one_query = (db', Success 200 d '''') \<and>
      mset (map rj_comment (rs_replies d)) + mset rest =
        mset (published_children (comments two_replies_db) 1) \<and>
      length (rs_replies d) = 1 \<and>
      (\<forall>a\<in>set (map rj_comment (rs_replies d)). \<forall>b\<in>set rest. created_at b \<le> created_at a) \<and>
      map rj_comment (rs_replies d) = [row 7 (Some 1) 70] \<and> rest = [row 3 (Some 1) 30])"
proof -
  let ?db = "two_replies_db"
  have g: "(1::nat) \<le> 1" by simp
  have s: "sort_valid (q_sort newest_one_query)" and l: "limit_valid 50 (q_limit newest_one_query)"
    and n: "q_sort newest_one_query = Some ''newest''"
    by (simp_all add: newest_one_query_def sort_valid_def limit_valid_def)
  have k: "1 \<in> id_c ` set (comments ?db)"
    by (simp add: two_replies_db_def scenario_db_def scenario_rows_def row_def)
  have ch: "published_children (comments ?db) 1 = [row 3 (Some 1) 30, row 7 (Some 1) 70]"
    by (simp add: published_children_def two_replies_db_def scenario_db_def scenario_rows_def row_def)
  have lim: "min (or_default (q_limit newest_one_query) 20)
      (length (published_children (comments ?db) 1)) = 1"
    unfolding ch by (simp add: newest_one_query_def or_default_def)
  have ev: "map rj_comment
     (case snd (getReplies ?db 1 newest_one_query) of
        Success s d msg \<Rightarrow> rs_replies d | _ \<Rightarrow> []) = [row 7 (Some 1) 70]"
    by (simp add: getReplies_def newest_one_query_def sort_valid_def limit_valid_def
        or_default_sort_def or_default_def two_replies_db_def scenario_db_def scenario_rows_def
        row_def findByPk_def order_by_created_def arrange_id toJSON_def logq_def Let_def)
  from getReplies_direct[OF g s l, of ?db] k n obtain db' d rest where r:
    "getReplies ?db 1 newest_one_query = (db', Success 200 d '''')"
    "mset (map rj_comment (rs_replies d)) + mset rest = mset (published_children (comments ?db) 1)"
    "length (rs_replies d) =
       min (or_default (q_limit newest_one_query) 20) (length (published_children (comments ?db) 1))"
    "\<forall>a\<in>set (map rj_comment (rs_replies d)). \<forall>b\<in>set rest. created_at b \<le> created_at a"
    by blast
  have listed: "map rj_comment (rs_replies d) = [row 7 (Some 1) 70]"
    using ev unfolding r(1) by simp
  have "mset rest = {#row 3 (Some 1) 30#}"
    using r(2) unfolding listed ch by simp
  then have rest: "rest = [row 3 (Some 1) 30]" by simp
  show ?thesis using g s l k n ch r lim listed rest by auto
qed

section \<open>The tree builder\<close>

lemma map_upto_0: "map_upto h 0 = Map.empty"
  by (simp add: map_upto_def)

lemma map_upto_Suc: "map_upto h (Suc k) = (map_upto h k)(id_c (n_comment (h ! k)) \<mapsto> k)"
  by (simp add: map_upto_def)

lemma map_upto_Some:
  "map_upto h k x = Some i \<Longrightarrow>
   i < k \<and> id_c (n_comment (h ! i)) = x \<and> (\<forall>j<k. id_c (n_comment (h ! j)) = x \<longrightarrow> j \<le> i)"
proof (induction k arbitrary: i)
  case 0
  then show ?case by (simp add: map_upto_0)
next
  case (Suc k)
  show ?case
  proof (cases "id_c (n_comment (h ! k)) = x")
    case True
    with Suc.prems have "i = k" by (simp add: map_upto_Suc)
    with True show ?thesis by auto
  next
    case False
    with Suc.prems have "map_upto h k x = Some i" by (simp add: map_upto_Suc)
    from Suc.IH[OF this] False show ?thesis by (auto simp: less_Suc_eq)
  qed
qed

lemma map_upto_None: "map_upto h k x = None \<longleftrightarrow> (\<forall>j<k. id_c (n_comment (h ! j)) \<noteq> x)"
  by (induction k) (auto simp: less_Suc_eq map_upto_0 map_upto_Suc)

lemma commentMap_upto: "commentMap h = map_upto h (length h)"
  by (simp add: commentMap_def map_upto_def)

lemma commentMap_Some:
  "commentMap h x = Some i \<Longrightarrow>
   i < length h \<and> id_c (n_comment (h ! i)) = x \<and>
   (\<forall>j<length h. id_c (n_comment (h ! j)) = x \<longrightarrow> j \<le> i)"
  unfolding commentMap_upto by (rule map_upto_Some)

lemma commentMap_None:
  "commentMap h x = None \<longleftrightarrow> x \<notin> (\<lambda>nd. id_c (n_comment nd)) ` set h"
  unfolding commentMap_upto map_upto_None by (force simp: in_set_conv_nth)

lemma parent_ref_Some:
  "parent_ref h j = Some i \<Longrightarrow>
   i < length h \<and> truthy (parent_id (n_comment (h ! j))) \<and>
   parent_id (n_comment (h ! j)) = Some (id_c (n_comment (h ! i)))"
  by (auto simp: parent_ref_def truthy_def split: if_splits option.splits dest!: commentMap_Some)

lemma root_no_parent: "is_root h j \<Longrightarrow> parent_ref h j = None"
  by (simp add: is_root_def parent_ref_def)

text \<open>The state of the second pass after the first k objects.\<close>

lemma attach_upto:
  assumes "k \<le> length h"
  shows "fold (attach (commentMap h)) [0..<k] (h, []) =
     (map (\<lambda>i. (h ! i)\<lparr>n_replies := n_replies (h ! i) @ filter (\<lambda>j. parent_ref h j = Some i) [0..<k]\<rparr>)
          [0..<length h],
      filter (is_root h) [0..<k])"
  using assms
proof (induction k)
  case 0
  then show ?case by (simp add: map_nth)
next
  case (Suc k)
  let ?f = "\<lambda>m i. (h ! i)\<lparr>n_replies := n_replies (h ! i) @ filter (\<lambda>j. parent_ref h j = Some i) [0..<m]\<rparr>"
  let ?hk = "map (?f k) [0..<length h]"
  have k: "k < length h" using Suc.prems by simp
  have st: "fold (attach (commentMap h)) [0..<Suc k] (h, []) =
        attach (commentMap h) k (?hk, filter (is_root h) [0..<k])"
    using Suc by simp
  have ck: "n_comment (?hk ! k) = n_comment (h ! k)" using k by simp
  show ?case
  proof (cases "is_root h k")
    case True
    then have "parent_ref h k = None" by (rule root_no_parent)
    moreover have "\<not> truthy (parent_id (n_comment (h ! k)))" using True by (simp add: is_root_def)
    ultimately show ?thesis unfolding st using True k
      by (simp add: attach_def ck)
  next
    case False
    then have t: "truthy (parent_id (n_comment (h ! k)))" by (simp add: is_root_def)
    show ?thesis
    proof (cases "commentMap h (the (parent_id (n_comment (h ! k))))")
      case None
      then have "parent_ref h k = None" by (simp add: parent_ref_def)
      then show ?thesis unfolding st using False t None k
        by (simp add: attach_def ck)
    next
      case (Some p)
      then have pr: "parent_ref h k = Some p" using t by (simp add: parent_ref_def)
      have p: "p < length h" using commentMap_Some[OF Some] by simp
      have "?hk[p := (?hk ! p)\<lparr>n_replies := n_replies (?hk ! p) @ [k]\<rparr>] = map (?f (Suc k)) [0..<length h]"
        using p pr by (intro nth_equalityI) (auto simp: nth_list_update)
      then show ?thesis unfolding st using False t Some
        by (simp add: attach_def ck)
    qed
  qed
qed

lemma buildTree_eq:
  "buildTree h =
     (map (\<lambda>i. (h ! i)\<lparr>n_replies := n_replies (h ! i) @ children h i\<rparr>) [0..<length h],
      filter (is_root h) [0..<length h])"
  unfolding buildTree_def children_def by (rule attach_upto) simp


lemma fresh_nodes_nth [simp]:
  "i < length xs \<Longrightarrow> fresh_nodes xs ! i = \<lparr>n_comment = xs ! i, n_reaction_counts = [], n_replies = []\<rparr>"
  by (simp add: fresh_nodes_def)

lemma fresh_nodes_length [simp]: "length (fresh_nodes xs) = length xs"
  by (simp add: fresh_nodes_def)

text \<open>
  Claim C2, as stated, fails: of the two rows B and C, where C replies to a comment that
  is not in the list, only B reaches the root list; C is pushed onto no \<open>replies\<close>
  array and not onto \<open>rootComments\<close>, and the forest that is sent holds B alone.
\<close>

theorem buildTree_orphan_counterexample:
  "parent_id (orphan_rows ! 1) = Some 1 \<and> 1 \<notin> id_c ` set orphan_rows \<and>
   snd (buildTree (fresh_nodes orphan_rows)) = [0] \<and>
   map n_replies (fst (buildTree (fresh_nodes orphan_rows))) = [[], []] \<and>
   serialize (fst (buildTree (fresh_nodes orphan_rows))) (snd (buildTree (fresh_nodes orphan_rows))) =
     Some [Node 0 []]"
proof -
  have b: "buildTree (fresh_nodes orphan_rows) = (fresh_nodes orphan_rows, [0])"
    by (simp add: buildTree_def fresh_nodes_def orphan_rows_def commentMap_def attach_def
        row_def truthy_def)
  show ?thesis unfolding b
    by (simp add: serialize.simps fresh_nodes_def orphan_rows_def row_def)
qed

text \<open>
  Claim C2, amended. The builder keeps the objects and their order. \<open>rootComments\<close>
  lists, in input order, the objects whose \<open>parent_id\<close> is null (falsy); the
  \<open>replies\<close> of an object list, in input order, the objects whose \<open>parent_id\<close> the map
  resolves to it, the map resolving an id exactly when some object of the input carries
  it. An object whose non-null \<open>parent_id\<close> does not resolve within the input is
  appended nowhere: it is dropped from the forest.
\<close>

theorem buildTree_placement:
  assumes "buildTree (fresh_nodes xs) = (h, rootComments)"
  shows "length h = length xs \<and>
     rootComments = filter (\<lambda>j. \<not> truthy (parent_id (xs ! j))) [0..<length xs] \<and>
     (\<forall>i<length xs. n_comment (h ! i) = xs ! i \<and>
        n_replies (h ! i) =
          filter (\<lambda>j. truthy (parent_id (xs ! j)) \<and>
                      commentMap (fresh_nodes xs) (the (parent_id (xs ! j))) = Some i) [0..<length xs]) \<and>
     (\<forall>k. (commentMap (fresh_nodes xs) k = None \<longleftrightarrow> k \<notin> id_c ` set xs) \<and>
          (\<forall>i. commentMap (fresh_nodes xs) k = Some i \<longrightarrow> i < length xs \<and> id_c (xs ! i) = k)) \<and>
     (\<forall>j<length xs. truthy (parent_id (xs ! j)) \<and> the (parent_id (xs ! j)) \<notin> id_c ` set xs \<longrightarrow>
        j \<notin> set rootComments \<and> (\<forall>i<length xs. j \<notin> set (n_replies (h ! i))))"
proof -
  let ?h0 = "fresh_nodes xs"
  have h: "h = map (\<lambda>i. (?h0 ! i)\<lparr>n_replies := n_replies (?h0 ! i) @ children ?h0 i\<rparr>) [0..<length xs]"
    and r: "rootComments = filter (is_root ?h0) [0..<length xs]"
    using assms by (simp_all add: buildTree_eq)
  have 1: "length h = length xs" using h by simp
  have 2: "rootComments = filter (\<lambda>j. \<not> truthy (parent_id (xs ! j))) [0..<length xs]"
    unfolding r by (rule filter_cong) (auto simp: is_root_def)
  have ch: "children ?h0 i =
      filter (\<lambda>j. truthy (parent_id (xs ! j)) \<and>
                      commentMap ?h0 (the (parent_id (xs ! j))) = Some i) [0..<length xs]" for i
    unfolding children_def fresh_nodes_length
    by (rule filter_cong) (auto simp: parent_ref_def)
  have 3: "\<forall>i<length xs. n_comment (h ! i) = xs ! i \<and>
        n_replies (h ! i) =
          filter (\<lambda>j. truthy (parent_id (xs ! j)) \<and>
                      commentMap ?h0 (the (parent_id (xs ! j))) = Some i) [0..<length xs]"
    using h ch by simp
  have img: "(\<lambda>nd. id_c (n_comment nd)) ` set ?h0 = id_c ` set xs"
    by (auto simp: fresh_nodes_def image_iff)
  have 4: "(commentMap ?h0 k = None \<longleftrightarrow> k \<notin> id_c ` set xs) \<and>
          (\<forall>i. commentMap ?h0 k = Some i \<longrightarrow> i < length xs \<and> id_c (xs ! i) = k)" for k
    using commentMap_None[of ?h0 k] commentMap_Some[of ?h0 k] img by auto
  have 5: "j \<notin> set rootComments \<and> (\<forall>i<length xs. j \<notin> set (n_replies (h ! i)))"
    if "j < length xs" "truthy (parent_id (xs ! j))" "the (parent_id (xs ! j)) \<notin> id_c ` set xs" for j
  proof -
    have "commentMap ?h0 (the (parent_id (xs ! j))) = None" using 4 that(3) by blast
    then show ?thesis using 2 3 that by auto
  qed
  show ?thesis using 1 2 3 4 5 by blast
qed

theorem buildTree_placement_witness:
  "buildTree (fresh_nodes scenario_rows) =
     (fst (buildTree (fresh_nodes scenario_rows)), snd (buildTree (fresh_nodes scenario_rows))) \<and>
   snd (buildTree (fresh_nodes scenario_rows)) = [0, 1] \<and>
   map n_replies (fst (buildTree (fresh_nodes scenario_rows))) = [[2], [], [3], [4], [5], []] \<and>
   map n_comment (fst (buildTree (fresh_nodes scenario_rows))) = scenario_rows"
proof -
  let ?h = "fst (buildTree (fresh_nodes scenario_rows))"
  let ?r = "snd (buildTree (fresh_nodes scenario_rows))"
  have p: "buildTree (fresh_nodes scenario_rows) = (?h, ?r)" by simp
  have len: "length scenario_rows = 6" by (simp add: scenario_rows_def)
  have cm: "commentMap (fresh_nodes scenario_rows) =
      [1 \<mapsto> 0, 2 \<mapsto> 1, 3 \<mapsto> 2, 4 \<mapsto> 3, 5 \<mapsto> 4, 6 \<mapsto> 5]"
    by (simp add: commentMap_def fresh_nodes_def scenario_rows_def row_def numeral_eq_Suc)
  from buildTree_placement[OF p] have
    l: "length ?h = length scenario_rows" and
    r: "?r = filter (\<lambda>j. \<not> truthy (parent_id (scenario_rows ! j))) [0..<length scenario_rows]" and
    n: "\<forall>i<length scenario_rows. n_comment (?h ! i) = scenario_rows ! i \<and>
        n_replies (?h ! i) =
          filter (\<lambda>j. truthy (parent_id (scenario_rows ! j)) \<and>
                      commentMap (fresh_nodes scenario_rows) (the (parent_id (scenario_rows ! j))) = Some i)
            [0..<length scenario_rows]"
    by blast+
  have r': "?r = [0, 1]"
    unfolding r len by (simp add: scenario_rows_def row_def truthy_def upt_rec)
  have "map n_comment ?h = scenario_rows"
    using l n by (intro nth_equalityI) auto
  moreover have "map n_replies ?h =
      map (\<lambda>i. filter (\<lambda>j. truthy (parent_id (scenario_rows ! j)) \<and>
                      commentMap (fresh_nodes scenario_rows) (the (parent_id (scenario_rows ! j))) = Some i)
            [0..<length scenario_rows]) [0..<length scenario_rows]"
    using l n by (intro nth_equalityI) auto
  then have "map n_replies ?h = [[2], [], [3], [4], [5], []]"
    unfolding cm len
    by (simp add: numeral_eq_Suc scenario_rows_def row_def truthy_def upt_rec)
  ultimately show ?thesis using p r' by simp
qed

section \<open>Chains of parent links\<close>

lemma anc_add: "anc h (a + b) j = Option.bind (anc h a j) (anc h b)"
  by (induction a arbitrary: j) (auto split: option.splits)

lemma anc_Suc_right: "anc h (Suc k) j = Option.bind (anc h k j) (parent_ref h)"
proof (induction k arbitrary: j)
  case 0
  show ?case by (simp split: option.splits)
next
  case (Suc k)
  show ?case
  proof (cases "parent_ref h j")
    case None
    then show ?thesis by simp
  next
    case (Some p)
    have "anc h (Suc (Suc k)) j = anc h (Suc k) p" using Some by simp
    also have "\<dots> = Option.bind (anc h k p) (parent_ref h)" by (rule Suc.IH)
    also have "anc h k p = anc h (Suc k) j" using Some by simp
    finally show ?thesis .
  qed
qed

lemma anc_less: "anc h k j = Some x \<Longrightarrow> j < length h \<Longrightarrow> x < length h"
  by (induction k arbitrary: j) (auto split: option.splits dest: parent_ref_Some)

lemma anc_root: "is_root h r \<Longrightarrow> anc h k r = Some x \<Longrightarrow> k = 0"
  by (cases k) (auto simp: root_no_parent)

lemma rooted_anc:
  assumes "rooted_at h d j" "anc h a j = Some x"
  shows "a \<le> d \<and> rooted_at h (d - a) x"
proof -
  from assms(1) obtain r where r: "anc h d j = Some r" "is_root h r"
    by (auto simp: rooted_at_def split: option.splits)
  show ?thesis
  proof (cases "a \<le> d")
    case True
    then have "anc h d j = Option.bind (anc h a j) (anc h (d - a))"
      using anc_add[of h a "d - a" j] by simp
    then have "anc h (d - a) x = Some r" using r(1) assms(2) by simp
    then show ?thesis using True r(2) by (simp add: rooted_at_def)
  next
    case False
    then have "anc h a j = Option.bind (anc h d j) (anc h (a - d))"
      using anc_add[of h d "a - d" j] by simp
    then have "anc h (a - d) r = Some x" using r assms(2) by simp
    from anc_root[OF r(2) this] False show ?thesis by simp
  qed
qed

lemma rooted_unique: "rooted_at h d j \<Longrightarrow> rooted_at h d' j \<Longrightarrow> d = d'"
proof -
  assume a: "rooted_at h d j" "rooted_at h d' j"
  then obtain r r' where "anc h d j = Some r" "anc h d' j = Some r'"
    by (auto simp: rooted_at_def split: option.splits)
  with a rooted_anc[of h d j d' r'] rooted_anc[of h d' j d r] show "d = d'" by auto
qed

lemma rooted_child: "parent_ref h j = Some i \<Longrightarrow> rooted_at h (Suc d) j = rooted_at h d i"
  by (simp add: rooted_at_def)

lemma anc_prefix:
  assumes "anc h d j = Some r" "a \<le> d"
  shows "\<exists>x. anc h a j = Some x"
proof -
  have "anc h d j = Option.bind (anc h a j) (anc h (d - a))"
    using anc_add[of h a "d - a" j] assms(2) by simp
  with assms(1) show ?thesis by (cases "anc h a j") auto
qed

lemma depth_bound:
  assumes "rooted_at h d j" "j < length h"
  shows "d < length h"
proof -
  from assms(1) obtain r where r: "anc h d j = Some r"
    by (auto simp: rooted_at_def split: option.splits)
  let ?f = "\<lambda>a. the (anc h a j)"
  have some: "anc h a j = Some (?f a)" if "a \<le> d" for a
    using anc_prefix[OF r that] by auto
  have "inj_on ?f {..d}"
  proof (rule inj_onI)
    fix a b assume ab: "a \<in> {..d}" "b \<in> {..d}" "?f a = ?f b"
    from rooted_anc[OF assms(1) some[of a]] rooted_anc[OF assms(1) some[of b]] ab
    have "rooted_at h (d - a) (?f a)" "rooted_at h (d - b) (?f a)" by auto
    from rooted_unique[OF this] ab show "a = b" by auto
  qed
  moreover have "?f ` {..d} \<subseteq> {..<length h}"
    using some anc_less[OF _ assms(2)] by auto
  ultimately have "card {..d} \<le> card {..<length h}"
    by (intro card_inj_on_le) auto
  then show ?thesis by simp
qed

lemma ft_rooted:
  assumes "rooted_at h d i" "i < length h"
  shows "ft h i"
  using assms
proof (induction "length h - d" arbitrary: d i rule: less_induct)
  case less
  show ?case
  proof (rule ft_node)
    fix j assume j: "j < length h" "parent_ref h j = Some i"
    then have r: "rooted_at h (Suc d) j" using less.prems(1) by (simp add: rooted_child)
    from depth_bound[OF r j(1)] have "length h - Suc d < length h - d" by simp
    from less.hyps[OF this r j(1)] show "ft h j" .
  qed
qed

lemma has_root_iff: "j < length h \<Longrightarrow> has_root h j \<longleftrightarrow> (\<exists>d. rooted_at h d j)"
  using depth_bound by (auto simp: has_root_def list_ex_iff)

section \<open>The forest that is sent\<close>

lemma serialize_Nil [simp]: "serialize h [] = Some []"
  by (subst serialize.simps) simp

lemma serialize_Cons:
  "serialize h (c # rest) =
     Option.bind (serialize h (n_replies (h ! c)))
       (\<lambda>ts. Option.bind (serialize h rest) (\<lambda>us. Some (Node c ts # us)))"
  by (subst serialize.simps) simp

lemma serialize_all2:
  "serialize h cs = Some F \<Longrightarrow>
   list_all2 (\<lambda>c t. \<exists>ts. t = Node c ts \<and> serialize h (n_replies (h ! c)) = Some ts) cs F"
proof (induction cs arbitrary: F)
  case Nil
  then show ?case by simp
next
  case (Cons c cs)
  from Cons.prems obtain ts us where
    "serialize h (n_replies (h ! c)) = Some ts" "serialize h cs = Some us" "F = Node c ts # us"
    by (auto simp: serialize_Cons split: Option.bind_splits)
  with Cons.IH[of us] show ?case by simp
qed

lemma serialize_exists:
  "(\<forall>c\<in>set cs. \<exists>ts. serialize h (n_replies (h ! c)) = Some ts) \<Longrightarrow> \<exists>F. serialize h cs = Some F"
  by (induction cs) (auto simp: serialize_Cons)

lemma children_iff: "j \<in> set (children h i) \<longleftrightarrow> j < length h \<and> parent_ref h j = Some i"
  by (auto simp: children_def)

lemma distinct_children: "distinct (children h i)"
  by (simp add: children_def)

lemma linked_replies:
  assumes "linked h0 h" "i < length h0"
  shows "set (n_replies (h ! i)) = set (children h0 i)" "distinct (n_replies (h ! i))"
proof -
  have m: "mset (n_replies (h ! i)) = mset (children h0 i)" using assms by (simp add: linked_def)
  show "set (n_replies (h ! i)) = set (children h0 i)" using m by (rule mset_eq_setD)
  show "distinct (n_replies (h ! i))"
    using m distinct_children[of h0 i] by (metis mset_eq_imp_distinct_iff)
qed

lemma serialize_ft:
  assumes "linked h0 h"
  shows "ft h0 i \<Longrightarrow> i < length h0 \<Longrightarrow> \<exists>ts. serialize h (n_replies (h ! i)) = Some ts"
proof (induction rule: ft.induct)
  case (ft_node i)
  have "\<forall>c\<in>set (n_replies (h ! i)). \<exists>ts. serialize h (n_replies (h ! c)) = Some ts"
    using ft_node linked_replies(1)[OF assms] by (auto simp: children_iff)
  then show ?case by (rule serialize_exists)
qed

lemma desc_unfold:
  assumes "c < length h"
  shows "desc h c = insert c (\<Union>c'\<in>set (children h c). desc h c')"
proof (intro set_eqI iffI)
  fix j assume "j \<in> desc h c"
  then obtain k where j: "j < length h" "anc h k j = Some c" by (auto simp: desc_def)
  show "j \<in> insert c (\<Union>c'\<in>set (children h c). desc h c')"
  proof (cases k)
    case 0
    then show ?thesis using j by simp
  next
    case (Suc k')
    with j(2) obtain c' where c': "anc h k' j = Some c'" "parent_ref h c' = Some c"
      by (auto simp: anc_Suc_right simp del: anc.simps split: Option.bind_splits)
    then have "c' \<in> set (children h c)" using anc_less[OF c'(1) j(1)] by (simp add: children_iff)
    moreover have "j \<in> desc h c'" using j(1) c'(1) by (auto simp: desc_def)
    ultimately show ?thesis by blast
  qed
next
  fix j assume "j \<in> insert c (\<Union>c'\<in>set (children h c). desc h c')"
  then consider "j = c" | c' where "c' \<in> set (children h c)" "j \<in> desc h c'" by blast
  then show "j \<in> desc h c"
  proof cases
    case 1
    have "anc h 0 c = Some c" by simp
    then show ?thesis using 1 assms unfolding desc_def by blast
  next
    case 2
    then obtain k where "j < length h" "anc h k j = Some c'" "parent_ref h c' = Some c"
      by (auto simp: desc_def children_iff)
    then have "anc h (Suc k) j = Some c" by (simp add: anc_Suc_right del: anc.simps)
    then show ?thesis using \<open>j < length h\<close> unfolding desc_def by blast
  qed
qed

lemma rooted_desc: "anc h k j = Some x \<Longrightarrow> rooted_at h d x \<Longrightarrow> rooted_at h (k + d) j"
  by (simp add: rooted_at_def anc_add)

lemma desc_disjoint:
  assumes "rooted_at h d a" "rooted_at h d b" "a \<noteq> b"
  shows "desc h a \<inter> desc h b = {}"
proof (rule ccontr)
  assume "desc h a \<inter> desc h b \<noteq> {}"
  then obtain j ka kb where j: "anc h ka j = Some a" "anc h kb j = Some b"
    by (auto simp: desc_def)
  from rooted_unique[OF rooted_desc[OF j(1) assms(1)] rooted_desc[OF j(2) assms(2)]]
  have "ka = kb" by simp
  with j assms(3) show False by simp
qed

lemma not_in_child_desc:
  assumes "rooted_at h d c" "parent_ref h c' = Some c"
  shows "c \<notin> desc h c'"
proof
  assume "c \<in> desc h c'"
  then obtain k where "anc h k c = Some c'" by (auto simp: desc_def)
  then have "anc h (Suc k) c = Some c" using assms(2) by (simp add: anc_Suc_right del: anc.simps)
  from rooted_unique[OF rooted_desc[OF this assms(1)] assms(1)] show False by simp
qed

lemma concat_blocks:
  assumes "list_all2 (\<lambda>c ys. distinct ys \<and> set ys = D c) cs yss" "distinct cs"
    and "\<And>a b. a \<in> set cs \<Longrightarrow> b \<in> set cs \<Longrightarrow> a \<noteq> b \<Longrightarrow> D a \<inter> D b = {}"
  shows "distinct (concat yss) \<and> set (concat yss) = (\<Union>c\<in>set cs. D c)"
  using assms
proof (induction rule: list_all2_induct)
  case Nil
  then show ?case by simp
next
  case (Cons c cs ys yss)
  then have ih: "distinct (concat yss)" "set (concat yss) = (\<Union>c\<in>set cs. D c)" by auto
  have "D c \<inter> (\<Union>c\<in>set cs. D c) = {}" using Cons.prems by fastforce
  then show ?case using Cons.hyps(1) ih by auto
qed

lemma pfirst_mono: "pfirst h S ys \<Longrightarrow> S \<subseteq> T \<Longrightarrow> pfirst h T ys"
proof (induction ys arbitrary: S T)
  case Nil
  then show ?case by simp
next
  case (Cons q ys)
  have "insert q S \<subseteq> insert q T" using Cons.prems(2) by auto
  with Cons show ?case by (auto split: option.splits)
qed

lemma pfirst_append: "pfirst h S (as @ bs) \<longleftrightarrow> pfirst h S as \<and> pfirst h (S \<union> set as) bs"
  by (induction as arbitrary: S) (auto split: option.splits)

lemma pfirst_concat: "(\<forall>ys\<in>set yss. pfirst h S ys) \<Longrightarrow> pfirst h S (concat yss)"
proof (induction yss)
  case Nil
  then show ?case by simp
next
  case (Cons ys yss)
  then have "pfirst h S (concat yss)" by simp
  then have "pfirst h (S \<union> set ys) (concat yss)" by (rule pfirst_mono) simp
  with Cons.prems show ?case by (simp add: pfirst_append)
qed

lemma list_all2_mono_mem:
  "list_all2 P xs ys \<Longrightarrow> (\<And>x y. x \<in> set xs \<Longrightarrow> y \<in> set ys \<Longrightarrow> P x y \<Longrightarrow> Q x y) \<Longrightarrow>
   list_all2 Q xs ys"
  by (induction rule: list_all2_induct) auto

lemma flatten_tree:
  assumes "linked h0 h"
  shows "t = Node c ts \<Longrightarrow> serialize h (n_replies (h ! c)) = Some ts \<Longrightarrow> c < length h0 \<Longrightarrow>
         rooted_at h0 d c \<Longrightarrow>
         distinct (flatten t) \<and> set (flatten t) = desc h0 c \<and>
         pfirst h0 (set_option (parent_ref h0 c)) (flatten t)"
proof (induction t arbitrary: c ts d)
  case (Node a us)
  then have eq: "a = c" "us = ts" by auto
  let ?cs = "n_replies (h ! c)"
  have cs: "set ?cs = set (children h0 c)" "distinct ?cs"
    using linked_replies[OF assms Node.prems(3)] by auto
  have all2: "list_all2 (\<lambda>c' t'. \<exists>ts'. t' = Node c' ts' \<and> serialize h (n_replies (h ! c')) = Some ts') ?cs ts"
    using serialize_all2[OF Node.prems(2)] .
  have blocks: "list_all2 (\<lambda>c' ys. (distinct ys \<and> set ys = desc h0 c') \<and> pfirst h0 {c} ys) ?cs (map flatten ts)"
    unfolding list_all2_map2
  proof (rule list_all2_mono_mem[OF all2])
    fix c' t' assume mem: "c' \<in> set ?cs" "t' \<in> set ts"
      and "\<exists>ts'. t' = Node c' ts' \<and> serialize h (n_replies (h ! c')) = Some ts'" 
    then obtain ts' where t': "t' = Node c' ts'" "serialize h (n_replies (h ! c')) = Some ts'" by auto
    have c': "c' < length h0" "parent_ref h0 c' = Some c" using mem(1) cs(1) by (auto simp: children_iff)
    have r: "rooted_at h0 (Suc d) c'" using c'(2) Node.prems(4) by (simp add: rooted_child)
    from Node.IH[OF _ t' c'(1) r] mem(2) eq(2) c'(2)
    show "(distinct (flatten t') \<and> set (flatten t') = desc h0 c') \<and> pfirst h0 {c} (flatten t')"
      by simp
  qed
  have disj: "desc h0 x \<inter> desc h0 y = {}" if "x \<in> set ?cs" "y \<in> set ?cs" "x \<noteq> y" for x y
  proof -
    have "rooted_at h0 (Suc d) x" "rooted_at h0 (Suc d) y"
      using that cs(1) Node.prems(4) by (auto simp: children_iff rooted_child)
    then show ?thesis using that(3) by (rule desc_disjoint)
  qed
  have b1: "list_all2 (\<lambda>c' ys. distinct ys \<and> set ys = desc h0 c') ?cs (map flatten ts)"
    using blocks by (rule list_all2_mono) auto
  from concat_blocks[OF b1 cs(2) disj]
  have d: "distinct (concat (map flatten ts))"
    and s: "set (concat (map flatten ts)) = (\<Union>c'\<in>set (children h0 c). desc h0 c')"
    using cs(1) by auto
  have notin: "c \<notin> (\<Union>c'\<in>set (children h0 c). desc h0 c')"
    using not_in_child_desc[OF Node.prems(4)] by (auto simp: children_iff)
  have "\<forall>ys\<in>set (map flatten ts). pfirst h0 {c} ys"
    using blocks by (auto simp: list_all2_conv_all_nth in_set_conv_nth)
  then have "pfirst h0 {c} (concat (map flatten ts))" by (rule pfirst_concat)
  then have p: "pfirst h0 (insert c (set_option (parent_ref h0 c))) (concat (map flatten ts))"
    by (rule pfirst_mono) simp
  show ?case
    unfolding eq using d s notin p desc_unfold[OF Node.prems(3)]
    by (auto split: option.splits)
qed

lemma flatten_forest_roots:
  assumes "linked h0 h" "serialize h rs = Some F" "distinct rs"
    and "\<forall>r\<in>set rs. r < length h0 \<and> is_root h0 r"
  shows "distinct (flatten_forest F) \<and> set (flatten_forest F) = (\<Union>r\<in>set rs. desc h0 r) \<and>
         pfirst h0 {} (flatten_forest F)"
proof -
  have all2: "list_all2 (\<lambda>c t. \<exists>ts. t = Node c ts \<and> serialize h (n_replies (h ! c)) = Some ts) rs F"
    using serialize_all2[OF assms(2)] .
  have r0: "rooted_at h0 0 r" if "r \<in> set rs" for r
    using assms(4) that by (simp add: rooted_at_def)
  have blocks: "list_all2 (\<lambda>r ys. (distinct ys \<and> set ys = desc h0 r) \<and> pfirst h0 {} ys) rs (map flatten F)"
    unfolding list_all2_map2
  proof (rule list_all2_mono_mem[OF all2])
    fix r t assume mem: "r \<in> set rs" and "t \<in> set F"
      and "\<exists>ts. t = Node r ts \<and> serialize h (n_replies (h ! r)) = Some ts"
    then obtain ts where t: "t = Node r ts" "serialize h (n_replies (h ! r)) = Some ts" by auto
    have "parent_ref h0 r = None" using assms(4) mem by (simp add: root_no_parent)
    with flatten_tree[OF assms(1) t _ r0[OF mem]] assms(4) mem
    show "(distinct (flatten t) \<and> set (flatten t) = desc h0 r) \<and> pfirst h0 {} (flatten t)"
      by simp
  qed
  have b1: "list_all2 (\<lambda>r ys. distinct ys \<and> set ys = desc h0 r) rs (map flatten F)"
    using blocks by (rule list_all2_mono) auto
  have disj: "desc h0 x \<inter> desc h0 y = {}" if "x \<in> set rs" "y \<in> set rs" "x \<noteq> y" for x y
    using desc_disjoint[OF r0[OF that(1)] r0[OF that(2)] that(3)] .
  have "\<forall>ys\<in>set (map flatten F). pfirst h0 {} ys"
    using blocks by (auto simp: list_all2_conv_all_nth in_set_conv_nth)
  then have "pfirst h0 {} (concat (map flatten F))" by (rule pfirst_concat)
  with concat_blocks[OF b1 assms(3) disj] show ?thesis by (simp add: flatten_forest_def)
qed

lemma roots_desc:
  "(\<Union>r\<in>set (filter (is_root h) [0..<length h]). desc h r) = {j. j < length h \<and> has_root h j}"
proof (intro set_eqI iffI)
  fix j assume "j \<in> (\<Union>r\<in>set (filter (is_root h) [0..<length h]). desc h r)"
  then obtain r k where "is_root h r" "j < length h" "anc h k j = Some r"
    by (auto simp: desc_def)
  then have "rooted_at h k j" by (simp add: rooted_at_def)
  then show "j \<in> {j. j < length h \<and> has_root h j}"
    using \<open>j < length h\<close> by (auto simp: has_root_iff)
next
  fix j assume "j \<in> {j. j < length h \<and> has_root h j}"
  then obtain d where j: "j < length h" "rooted_at h d j" by (auto simp: has_root_iff)
  then obtain r where r: "anc h d j = Some r" "is_root h r"
    by (auto simp: rooted_at_def split: option.splits)
  have "r < length h" using anc_less[OF r(1) j(1)] .
  then show "j \<in> (\<Union>r\<in>set (filter (is_root h) [0..<length h]). desc h r)"
    using r j(1) by (auto simp: desc_def)
qed

lemma serialize_roots:
  assumes "linked h0 h" "\<forall>r\<in>set rs. r < length h0 \<and> is_root h0 r"
  shows "\<exists>F. serialize h rs = Some F"
proof (rule serialize_exists, rule ballI)
  fix r assume "r \<in> set rs"
  then have "r < length h0" "rooted_at h0 0 r" using assms(2) by (auto simp: rooted_at_def)
  from serialize_ft[OF assms(1) ft_rooted[OF this(2,1)] this(1)]
  show "\<exists>ts. serialize h (n_replies (h ! r)) = Some ts" .
qed

lemma linked_buildTree:
  assumes "\<forall>i<length h0. n_replies (h0 ! i) = []"
  shows "linked h0 (fst (buildTree h0))"
  using assms by (simp add: buildTree_eq linked_def)

lemma pfirst_nth:
  "pfirst h S ys \<Longrightarrow> i < length ys \<Longrightarrow> parent_ref h (ys ! i) = Some p \<Longrightarrow> p \<in> S \<union> set (take i ys)"
proof (induction ys arbitrary: S i)
  case Nil
  then show ?case by simp
next
  case (Cons q ys)
  show ?case
  proof (cases i)
    case 0
    then show ?thesis using Cons.prems by simp
  next
    case (Suc i')
    with Cons.prems have "pfirst h (insert q S) ys" "i' < length ys" "parent_ref h (ys ! i') = Some p"
      by auto
    from Cons.IH[OF this] Suc show ?thesis by auto
  qed
qed

lemma ancestors_before:
  assumes "pfirst h {} ys"
  shows "0 < k \<Longrightarrow> i < length ys \<Longrightarrow> anc h k (ys ! i) = Some a \<Longrightarrow> a \<in> set (take i ys)"
proof (induction k arbitrary: i)
  case 0
  then show ?case by simp
next
  case (Suc k)
  from Suc.prems(3) obtain p where p: "parent_ref h (ys ! i) = Some p" "anc h k p = Some a"
    by (auto split: option.splits)
  from pfirst_nth[OF assms Suc.prems(2) p(1)] have "p \<in> set (take i ys)" by simp
  then obtain i' where i': "i' < i" "i' < length ys" "ys ! i' = p"
    by (auto simp: in_set_conv_nth)
  show ?case
  proof (cases k)
    case 0
    then show ?thesis using p i' Suc.prems(2) by (auto simp: in_set_conv_nth)
  next
    case (Suc k')
    then have "a \<in> set (take i' ys)" using Suc.IH[of i'] i' p(2) by simp
    moreover have "set (take i' ys) \<subseteq> set (take i ys)"
      using i'(1) by (intro set_take_subset_set_take) simp
    ultimately show ?thesis by auto
  qed
qed

lemma scenario_forest:
  "serialize (fst (buildTree (fresh_nodes scenario_rows))) (snd (buildTree (fresh_nodes scenario_rows))) =
     Some [Node 0 [Node 2 [Node 3 [Node 4 [Node 5 []]]]], Node 1 []]"
  by (simp add: buildTree_def fresh_nodes_def scenario_rows_def commentMap_def attach_def
        row_def truthy_def serialize.simps upt_rec)

text \<open>
  Claim C6, as stated, fails: for the rows B and C, where C replies to a comment outside
  the list, the forest is B alone; its pre-order is [B], which is not a permutation of
  [B, C].
\<close>

theorem flatten_orphan_counterexample:
  "serialize (fst (buildTree (fresh_nodes orphan_rows))) (snd (buildTree (fresh_nodes orphan_rows))) =
     Some [Node 0 []] \<and>
   map ((!) orphan_rows) (flatten_forest [Node 0 []]) = [row 2 None 20] \<and>
   mset [row 2 None 20] \<noteq> mset orphan_rows"
proof -
  have b: "buildTree (fresh_nodes orphan_rows) = (fresh_nodes orphan_rows, [0])"
    by (simp add: buildTree_def fresh_nodes_def orphan_rows_def commentMap_def attach_def
        row_def truthy_def)
  show ?thesis unfolding b
    by (simp add: serialize.simps fresh_nodes_def orphan_rows_def row_def flatten_forest_def)
qed

text \<open>
  Claim C6, amended. For every list of comments the forest of the builder can be sent,
  and its pre-order lists exactly the nodes whose chain of parent links, resolved within
  the list, ends at a node with null \<open>parent_id\<close>, each exactly once; so it is a
  permutation of those nodes, and of the whole input when every node has such a chain.
  Every ancestor of a listed node along resolved parent links is listed before it.
\<close>

theorem flatten_buildTree:
  assumes "buildTree (fresh_nodes xs) = (h, rootComments)"
  shows "\<exists>F. serialize h rootComments = Some F \<and>
           distinct (flatten_forest F) \<and>
           set (flatten_forest F) = {j. j < length xs \<and> has_root (fresh_nodes xs) j} \<and>
           mset (map ((!) xs) (flatten_forest F)) =
             mset (map ((!) xs) (filter (has_root (fresh_nodes xs)) [0..<length xs])) \<and>
           ((\<forall>j<length xs. has_root (fresh_nodes xs) j) \<longrightarrow>
              mset (map ((!) xs) (flatten_forest F)) = mset xs) \<and>
           (\<forall>i<length (flatten_forest F). \<forall>k a.
              0 < k \<and> anc (fresh_nodes xs) k (flatten_forest F ! i) = Some a \<longrightarrow>
              a \<in> set (take i (flatten_forest F)))"
proof -
  let ?h0 = "fresh_nodes xs"
  have l: "linked ?h0 h"
    using linked_buildTree[of ?h0] assms by simp
  have r: "rootComments = filter (is_root ?h0) [0..<length ?h0]"
    using assms by (simp add: buildTree_eq)
  have rs: "\<forall>r\<in>set rootComments. r < length ?h0 \<and> is_root ?h0 r" "distinct rootComments"
    unfolding r by auto
  from serialize_roots[OF l rs(1)] obtain F where F: "serialize h rootComments = Some F" by auto
  from flatten_forest_roots[OF l F rs(2) rs(1)]
  have d: "distinct (flatten_forest F)"
    and s: "set (flatten_forest F) = {j. j < length xs \<and> has_root ?h0 j}"
    and p: "pfirst ?h0 {} (flatten_forest F)"
    unfolding r roots_desc by simp_all
  have "mset (flatten_forest F) = mset (filter (has_root ?h0) [0..<length xs])"
    using d s by (intro set_eq_iff_mset_eq_distinct[THEN iffD1]) auto
  then have m: "mset (map ((!) xs) (flatten_forest F)) =
             mset (map ((!) xs) (filter (has_root ?h0) [0..<length xs]))"
    by (metis mset_map)
  have a: "mset (map ((!) xs) (flatten_forest F)) = mset xs" if "\<forall>j<length xs. has_root ?h0 j"
  proof -
    have "filter (has_root ?h0) [0..<length xs] = [0..<length xs]"
      using that by (simp add: filter_id_conv)
    then show ?thesis using m by (simp add: map_nth)
  qed
  have b: "a \<in> set (take i (flatten_forest F))"
    if "i < length (flatten_forest F)" "0 < k" "anc ?h0 k (flatten_forest F ! i) = Some a" for i k a
    using ancestors_before[OF p that(2,1,3)] .
  show ?thesis using F d s m a b by blast
qed

theorem flatten_buildTree_witness:
  "buildTree (fresh_nodes scenario_rows) =
     (fst (buildTree (fresh_nodes scenario_rows)), snd (buildTree (fresh_nodes scenario_rows))) \<and>
   (\<exists>F. serialize (fst (buildTree (fresh_nodes scenario_rows))) (snd (buildTree (fresh_nodes scenario_rows))) =
          Some F \<and>
        flatten_forest F = [0, 2, 3, 4, 5, 1] \<and>
        distinct (flatten_forest F) \<and>
        set (flatten_forest F) = {j. j < length scenario_rows \<and> has_root (fresh_nodes scenario_rows) j})"
proof -
  let ?h = "fst (buildTree (fresh_nodes scenario_rows))"
  let ?r = "snd (buildTree (fresh_nodes scenario_rows))"
  have p: "buildTree (fresh_nodes scenario_rows) = (?h, ?r)" by simp
  from flatten_buildTree[OF p] obtain F where
    F: "serialize ?h ?r = Some F" "distinct (flatten_forest F)"
       "set (flatten_forest F) = {j. j < length scenario_rows \<and> has_root (fresh_nodes scenario_rows) j}"
    by blast
  have "F = [Node 0 [Node 2 [Node 3 [Node 4 [Node 5 []]]]], Node 1 []]"
    using F(1) scenario_forest by simp
  then have "flatten_forest F = [0, 2, 3, 4, 5, 1]" by (simp add: flatten_forest_def)
  with F p show ?thesis by blast
qed

section \<open>Sorting the replies\<close>

lemma mset_insert_by: "mset (insert_by cmp x ys) = add_mset x (mset ys)"
  by (induction ys) auto

lemma set_insert_by: "set (insert_by cmp x ys) = insert x (set ys)"
  by (induction ys) auto

lemma sorted_insert_by:
  assumes "\<forall>y\<in>set ys. (cmp x y < 0) = (key x < key y)"
    and "sorted_wrt (\<lambda>a b. key a \<le> (key b :: int)) ys"
  shows "sorted_wrt (\<lambda>a b. key a \<le> key b) (insert_by cmp x ys)"
  using assms
proof (induction ys)
  case Nil
  then show ?case by simp
next
  case (Cons y ys)
  show ?case
  proof (cases "cmp x y < 0")
    case True
    then have "key x < key y" using Cons.prems(1) by simp
    then show ?thesis using True Cons.prems(2) by fastforce
  next
    case False
    then have "key y \<le> key x" using Cons.prems(1) by auto
    then show ?thesis using False Cons by (auto simp: set_insert_by)
  qed
qed

lemma foldl_insert_by:
  assumes "\<forall>x\<in>set xs \<union> set acc. \<forall>y\<in>set xs \<union> set acc. (cmp x y < 0) = (key x < key y)"
    and "sorted_wrt (\<lambda>a b. key a \<le> (key b :: int)) acc"
  shows "sorted_wrt (\<lambda>a b. key a \<le> key b) (foldl (\<lambda>acc x. insert_by cmp x acc) acc xs) \<and>
         mset (foldl (\<lambda>acc x. insert_by cmp x acc) acc xs) = mset acc + mset xs"
  using assms
proof (induction xs arbitrary: acc)
  case Nil
  then show ?case by simp
next
  case (Cons x xs)
  have s: "sorted_wrt (\<lambda>a b. key a \<le> key b) (insert_by cmp x acc)"
    using Cons.prems by (intro sorted_insert_by) auto
  have "\<forall>a\<in>set xs \<union> set (insert_by cmp x acc). \<forall>b\<in>set xs \<union> set (insert_by cmp x acc).
      (cmp a b < 0) = (key a < key b)"
    using Cons.prems(1) by (auto simp: set_insert_by)
  from Cons.IH[OF this s] show ?case by (simp add: mset_insert_by)
qed

lemma js_sort_sorted:
  "\<forall>x\<in>set xs. \<forall>y\<in>set xs. (cmp x y < 0) = (key x < key y) \<Longrightarrow>
   sorted_wrt (\<lambda>a b. key a \<le> (key b :: int)) (js_sort cmp xs)"
  using foldl_insert_by[of xs "[]" cmp key] by (simp add: js_sort_def)

lemma mset_js_sort: "mset (js_sort cmp xs) = mset xs"
proof -
  have "mset (foldl (\<lambda>acc x. insert_by cmp x acc) acc xs) = mset acc + mset xs" for acc
    by (induction xs arbitrary: acc) (auto simp: mset_insert_by)
  then show ?thesis by (simp add: js_sort_def)
qed

lemma created_cmp_skey: "(created_cmp sort' h a b < 0) = (skey sort' h a < skey sort' h b)"
  by (auto simp: created_cmp_def skey_def Let_def)

lemma sortReplies_Nil [simp]: "sortReplies sort' h [] = Some h"
  by (subst sortReplies.simps) simp

lemma sortReplies_Cons:
  "sortReplies sort' h (c # rest) =
     (if n_replies (h ! c) \<noteq> [] then
        Option.bind
          (sortReplies sort'
             (h[c := (h ! c)\<lparr>n_replies := js_sort (created_cmp sort' h) (n_replies (h ! c))\<rparr>])
             (js_sort (created_cmp sort' h) (n_replies (h ! c))))
          (\<lambda>h2. sortReplies sort' h2 rest)
      else sortReplies sort' h rest)"
  by (subst sortReplies.simps) simp

lemma sortReplies_split:
  "sortReplies sort' h (c # rest) =
     Option.bind (sortReplies sort' h [c]) (\<lambda>h2. sortReplies sort' h2 rest)"
  by (simp add: sortReplies_Cons[of sort' h c rest] sortReplies_Cons[of sort' h c "[]"])

lemma sortReplies_list:
  assumes "\<forall>c\<in>set cs. \<forall>h. linked h0 h \<longrightarrow>
              (\<exists>h'. sortReplies sort' h [c] = Some h' \<and> sorted_below sort' h0 h h' {c})"
    and "linked h0 h"
  shows "\<exists>h'. sortReplies sort' h cs = Some h' \<and> sorted_below sort' h0 h h' (set cs)"
  using assms
proof (induction cs arbitrary: h)
  case Nil
  then show ?case by (simp add: sorted_below_def)
next
  case (Cons c cs)
  from Cons.prems obtain h1 where h1: "sortReplies sort' h [c] = Some h1" "sorted_below sort' h0 h h1 {c}"
    by auto
  then have l1: "linked h0 h1" by (simp add: sorted_below_def)
  from Cons.IH[OF _ l1] Cons.prems(1) obtain h2 where
    h2: "sortReplies sort' h1 cs = Some h2" "sorted_below sort' h0 h1 h2 (set cs)"
    by auto
  have "sortReplies sort' h (c # cs) = Some h2"
    using h1(1) h2(1) by (subst sortReplies_split) simp
  moreover have "sorted_below sort' h0 h h2 (set (c # cs))"
    using h1(2) h2(2) unfolding sorted_below_def
    by (auto simp: desc_def)
  ultimately show ?case by blast
qed


lemma linked_nth:
  "linked h0 h \<Longrightarrow> i < length h0 \<Longrightarrow> n_comment (h ! i) = n_comment (h0 ! i)"
  by (simp add: linked_def)

lemma skey_linked: "linked h0 h \<Longrightarrow> i < length h0 \<Longrightarrow> skey sort' h i = skey sort' h0 i"
  by (simp add: skey_def linked_nth)

lemma sortReplies_node:
  "ft h0 i \<Longrightarrow> i < length h0 \<Longrightarrow> linked h0 h \<Longrightarrow>
   \<exists>h'. sortReplies sort' h [i] = Some h' \<and> sorted_below sort' h0 h h' {i}"
proof (induction arbitrary: h rule: ft.induct)
  case (ft_node i)
  note i = \<open>i < length h0\<close> and l = \<open>linked h0 h\<close>
  have reps: "set (n_replies (h ! i)) = set (children h0 i)"
    using linked_replies(1)[OF l i] .
  show ?case
  proof (cases "n_replies (h ! i) = []")
    case True
    then have "set (children h0 i) = {}" using reps by simp
    then have "desc h0 i = {i}" using desc_unfold[OF i] by simp
    moreover have "srt sort' h0 h i" using True by (simp add: srt_def)
    moreover have "sortReplies sort' h [i] = Some h" using True by (simp add: sortReplies_Cons)
    ultimately show ?thesis using l by (simp add: sorted_below_def)
  next
    case False
    let ?rs = "js_sort (created_cmp sort' h) (n_replies (h ! i))"
    let ?h1 = "h[i := (h ! i)\<lparr>n_replies := ?rs\<rparr>]"
    have len: "length h = length h0" using l by (simp add: linked_def)
    have l1: "linked h0 ?h1"
      using l i by (auto simp: linked_def nth_list_update mset_js_sort)
    have set_rs: "set ?rs = set (children h0 i)"
      using reps mset_js_sort[of "created_cmp sort' h" "n_replies (h ! i)"] by (metis mset_eq_setD)
    have "\<forall>c\<in>set ?rs. \<forall>h. linked h0 h \<longrightarrow>
              (\<exists>h'. sortReplies sort' h [c] = Some h' \<and> sorted_below sort' h0 h h' {c})"
      using ft_node.IH set_rs by (auto simp: children_iff)
    from sortReplies_list[OF this l1] obtain h' where
      h': "sortReplies sort' ?h1 ?rs = Some h'" "sorted_below sort' h0 ?h1 h' (set ?rs)"
      by auto
    have run: "sortReplies sort' h [i] = Some h'"
      using False h'(1) by (simp add: sortReplies_Cons)
    have "\<forall>a\<in>set (n_replies (h ! i)). \<forall>b\<in>set (n_replies (h ! i)).
        (created_cmp sort' h a b < 0) = (skey sort' h0 a < skey sort' h0 b)"
      using reps skey_linked[OF l] by (auto simp: created_cmp_skey children_iff)
    then have "sorted_wrt (\<lambda>a b. skey sort' h0 a \<le> skey sort' h0 b) ?rs"
      by (rule js_sort_sorted)
    then have s1: "srt sort' h0 ?h1 i" using i len by (simp add: srt_def)
    have keep: "srt sort' h0 ?h1 x" if "x \<noteq> i" "srt sort' h0 h x" for x
      using that by (simp add: srt_def)
    have mono: "\<forall>x<length h0. srt sort' h0 ?h1 x \<longrightarrow> srt sort' h0 h' x"
      and below: "\<forall>c\<in>set ?rs. \<forall>x\<in>desc h0 c. srt sort' h0 h' x"
      and l': "linked h0 h'"
      using h'(2) by (auto simp: sorted_below_def)
    have a: "\<forall>x<length h0. srt sort' h0 h x \<longrightarrow> srt sort' h0 h' x"
    proof (intro allI impI)
      fix x assume x: "x < length h0" "srt sort' h0 h x"
      have "srt sort' h0 ?h1 x"
      proof (cases "x = i")
        case True
        then show ?thesis using s1 by simp
      next
        case False
        then show ?thesis using keep x(2) by simp
      qed
      then show "srt sort' h0 h' x" using mono x(1) by simp
    qed
    have b: "\<forall>x\<in>desc h0 i. srt sort' h0 h' x"
    proof
      fix x assume "x \<in> desc h0 i"
      then consider "x = i" | c where "c \<in> set (children h0 i)" "x \<in> desc h0 c"
        unfolding desc_unfold[OF i] by blast
      then show "srt sort' h0 h' x"
      proof cases
        case 1
        then show ?thesis using mono s1 i by simp
      next
        case 2
        then have "c \<in> set ?rs" using set_rs by simp
        then show ?thesis using below 2(2) by simp
      qed
    qed
    show ?thesis using run l' a b by (simp add: sorted_below_def)
  qed
qed

lemma sortReplies_roots:
  assumes "linked h0 h" "\<forall>r\<in>set rs. r < length h0 \<and> is_root h0 r"
  shows "\<exists>h'. sortReplies sort' h rs = Some h' \<and> linked h0 h' \<and>
           (\<forall>r\<in>set rs. \<forall>x\<in>desc h0 r. srt sort' h0 h' x)"
proof -
  have "\<forall>c\<in>set rs. \<forall>h. linked h0 h \<longrightarrow>
              (\<exists>h'. sortReplies sort' h [c] = Some h' \<and> sorted_below sort' h0 h h' {c})"
  proof (intro ballI allI impI)
    fix c h assume c: "c \<in> set rs" and l: "linked h0 h"
    then have "c < length h0" "rooted_at h0 0 c" using assms(2) by (auto simp: rooted_at_def)
    from sortReplies_node[OF ft_rooted[OF this(2,1)] this(1) l]
    show "\<exists>h'. sortReplies sort' h [c] = Some h' \<and> sorted_below sort' h0 h h' {c}" .
  qed
  from sortReplies_list[OF this assms(1)] show ?thesis by (auto simp: sorted_below_def)
qed

lemma serialize_labels:
  "serialize h cs = Some F \<Longrightarrow> map root_label F = cs"
proof (induction cs arbitrary: F)
  case Nil
  then show ?case by simp
next
  case (Cons c cs)
  from Cons.prems obtain ts us where "serialize h cs = Some us" "F = Node c ts # us"
    by (auto simp: serialize_Cons split: Option.bind_splits)
  with Cons.IH[of us] show ?case by simp
qed

lemma root_label_map_tree: "root_label (map_tree f t) = f (root_label t)"
  by (cases t) simp

lemma list_all2_right_mem:
  "list_all2 P xs ys \<Longrightarrow> y \<in> set ys \<Longrightarrow> \<exists>x\<in>set xs. P x y"
  by (induction rule: list_all2_induct) auto

lemma tree_levels_serialize:
  assumes "linked h0 h"
  shows "t = Node c ts \<Longrightarrow> serialize h (n_replies (h ! c)) = Some ts \<Longrightarrow> c < length h0 \<Longrightarrow>
         \<forall>x\<in>desc h0 c. sorted_wrt (\<lambda>a b. R (f a) (f b)) (n_replies (h ! x)) \<Longrightarrow>
         tree_levels R (map_tree f t)"
proof (induction t arbitrary: c ts)
  case (Node a us)
  then have eq: "a = c" "us = ts" by auto
  have lab: "map root_label ts = n_replies (h ! c)"
    using serialize_labels[OF Node.prems(2)] .
  have "c \<in> desc h0 c" using desc_unfold[OF Node.prems(3)] by simp
  then have "sorted_wrt (\<lambda>a b. R (f a) (f b)) (map root_label ts)"
    using Node.prems(4) lab by simp
  then have top: "sorted_wrt R (map root_label (map (map_tree f) ts))"
    by (simp add: sorted_wrt_map o_def root_label_map_tree)
  have sub: "tree_levels R (map_tree f t')" if "t' \<in> set ts" for t'
  proof -
    from list_all2_right_mem[OF serialize_all2[OF Node.prems(2)] that] obtain c' ts' where
      t': "c' \<in> set (n_replies (h ! c))" "t' = Node c' ts'" "serialize h (n_replies (h ! c')) = Some ts'"
      by blast
    have c': "c' \<in> set (children h0 c)" using t'(1) linked_replies(1)[OF assms Node.prems(3)] by simp
    then have "c' < length h0" by (simp add: children_iff)
    moreover have "desc h0 c' \<subseteq> desc h0 c" using c' unfolding desc_unfold[OF Node.prems(3)] by blast
    ultimately show ?thesis using Node.IH[OF _ t'(2,3)] that eq(2) Node.prems(4) by blast
  qed
  show ?case unfolding eq using top sub by simp
qed


lemma level_rel_skey:
  "linked h0 h \<Longrightarrow> a < length h0 \<Longrightarrow> b < length h0 \<Longrightarrow>
   level_rel sort' (shown h a) (shown h b) = (skey sort' h0 a \<le> skey sort' h0 b)"
  by (simp add: level_rel_def newer_first_def older_first_def shown_def skey_def linked_nth)

lemma root_labels_map_tree:
  "map root_label (map (map_tree f) F) = map f (map root_label F)"
  by (simp add: root_label_map_tree)

lemma pipeline_sorted:
  assumes empty: "\<forall>i<length h0. n_replies (h0 ! i) = []"
    and sorted0: "\<forall>a b. a < b \<and> b < length h0 \<and> is_root h0 a \<and> is_root h0 b \<longrightarrow>
                    skey sort' h0 a \<le> skey sort' h0 b"
  shows "\<exists>H R H' F. buildTree h0 = (H, R) \<and> sortReplies sort' H R = Some H' \<and>
           serialize H' R = Some F \<and>
           forest_levels (level_rel sort') (map (map_tree (shown H')) F)"
proof -
  obtain H R where b: "buildTree h0 = (H, R)" by (cases "buildTree h0")
  have l: "linked h0 H" using linked_buildTree[OF empty] b by simp
  have R: "R = filter (is_root h0) [0..<length h0]" using b by (simp add: buildTree_eq)
  have rs: "\<forall>r\<in>set R. r < length h0 \<and> is_root h0 r" unfolding R by auto
  from sortReplies_roots[OF l rs] obtain H' where
    H': "sortReplies sort' H R = Some H'" "linked h0 H'"
        "\<forall>r\<in>set R. \<forall>x\<in>desc h0 r. srt sort' h0 H' x"
    by blast
  from serialize_roots[OF H'(2) rs] obtain F where F: "serialize H' R = Some F" by auto
  let ?Q = "\<lambda>a b. level_rel sort' (shown H' a) (shown H' b)"
  have inc: "sorted_wrt (<) R" unfolding R by (intro sorted_wrt_filter) simp
  have "sorted_wrt ?Q R"
  proof (rule sorted_wrt_mono_rel[OF _ inc])
    fix a b assume "a \<in> set R" "b \<in> set R" "a < b"
    then show "?Q a b" using rs sorted0 level_rel_skey[OF H'(2)] by simp
  qed
  then have top: "sorted_wrt (level_rel sort') (map root_label (map (map_tree (shown H')) F))"
    unfolding root_labels_map_tree serialize_labels[OF F] by (simp add: sorted_wrt_map)
  have sub: "tree_levels (level_rel sort') (map_tree (shown H') t)" if "t \<in> set F" for t
  proof -
    from list_all2_right_mem[OF serialize_all2[OF F] that] obtain r ts where
      t: "r \<in> set R" "t = Node r ts" "serialize H' (n_replies (H' ! r)) = Some ts"
      by blast
    have "\<forall>x\<in>desc h0 r. sorted_wrt ?Q (n_replies (H' ! x))"
    proof (rule ballI)
      fix x assume x: "x \<in> desc h0 r"
      then have xl: "x < length h0" by (simp add: desc_def)
      have s: "sorted_wrt (\<lambda>a b. skey sort' h0 a \<le> skey sort' h0 b) (n_replies (H' ! x))"
        using H'(3) t(1) x by (simp add: srt_def)
      show "sorted_wrt ?Q (n_replies (H' ! x))"
      proof (rule sorted_wrt_mono_rel[OF _ s])
        fix a b assume "a \<in> set (n_replies (H' ! x))" "b \<in> set (n_replies (H' ! x))"
          and le: "skey sort' h0 a \<le> skey sort' h0 b"
        then have "a < length h0" "b < length h0"
          using linked_replies(1)[OF H'(2) xl] by (auto simp: children_iff)
        then show "?Q a b" using le level_rel_skey[OF H'(2)] by simp
      qed
    qed
    moreover have "r < length h0" using rs t(1) by simp
    ultimately show ?thesis
      using tree_levels_serialize[OF H'(2) t(2,3), where R = "level_rel sort'" and f = "shown H'"]
      by simp
  qed
  have "forest_levels (level_rel sort') (map (map_tree (shown H')) F)"
    unfolding forest_levels_def using top sub by auto
  then show ?thesis using b H'(1) F by blast
qed


lemma processed_sorted:
  fixes mk :: "comment \<Rightarrow> reaction_count list"
  assumes "h0 = map (\<lambda>c. \<lparr>n_comment = c, n_reaction_counts = mk c, n_replies = []\<rparr>)
                    (take l (order_by_created f sort' rows))"
  shows "\<forall>a b. a < b \<and> b < length h0 \<longrightarrow> skey sort' h0 a \<le> skey sort' h0 b"
proof (intro allI impI)
  fix a b assume ab: "a < b \<and> b < length h0"
  let ?k = "\<lambda>c. if sort' = ''newest'' then - created_at c else created_at c"
  let ?cs = "take l (order_by_created f sort' rows)"
  have len: "a < length ?cs" "b < length ?cs" using ab assms by auto
  have "sorted (map ?k ?cs)"
    using order_by_created_sorted[of sort' f rows] by (simp add: take_map[symmetric] sorted_wrt_take)
  then have "map ?k ?cs ! a \<le> map ?k ?cs ! b"
    using ab len by (intro sorted_nth_mono) auto
  then have le: "?k (?cs ! a) \<le> ?k (?cs ! b)" using len by simp
  have "n_comment (h0 ! a) = ?cs ! a" "n_comment (h0 ! b) = ?cs ! b"
    unfolding assms using len by simp_all
  then show "skey sort' h0 a \<le> skey sort' h0 b"
    using le unfolding skey_def by (cases "sort' = ''newest''") simp_all
qed

lemma two_replies_listing:
  "map (map_tree (id_c \<circ> fst))
     (case getPostComments two_replies_db 1 newest_query of
        Some (db', Success s d msg) \<Rightarrow> l_comments d | _ \<Rightarrow> []) =
   [Node 2 [], Node 1 [Node 7 [], Node 3 [Node 4 [Node 5 [Node 6 []]]]]]"
  by (simp add: getPostComments_def two_replies_db_def newest_query_def scenario_db_def
      scenario_rows_def row_def sort_valid_def limit_valid_def or_default_sort_def or_default_def
      logq_def Let_def order_by_created_def arrange_id toJSON_def count_reactions_def
      buildTree_def commentMap_def attach_def truthy_def upt_rec
      sortReplies.simps serialize.simps js_sort_def created_cmp_def shown_def)

text \<open>
  Claim C5. The comment listing of a post always returns; for valid parameters and an
  existing post it answers 200; and in every tree it sends, the root list and every
  replies list have non-increasing creation timestamps when \<open>sort\<close> is newest and
  non-decreasing ones otherwise (\<open>sort\<close> oldest or absent), whatever the store holds.
\<close>

theorem listing_levels_sorted:
  "\<exists>db' r. getPostComments db postId q = Some (db', r) \<and>
     (1 \<le> postId \<and> sort_valid (q_sort q) \<and> limit_valid 100 (q_limit q) \<and> postId \<in> set (posts db) \<longrightarrow>
        (\<exists>d. r = Success 200 d '''')) \<and>
     (\<forall>d msg. r = Success 200 d msg \<longrightarrow>
        (q_sort q = Some ''newest'' \<longrightarrow> forest_levels newer_first (l_comments d)) \<and>
        (q_sort q \<noteq> Some ''newest'' \<longrightarrow> forest_levels older_first (l_comments d)))"
proof (cases "1 \<le> postId \<and> sort_valid (q_sort q) \<and> limit_valid 100 (q_limit q) \<and> postId \<in> set (posts db)")
  case False
  then show ?thesis by (auto simp: getPostComments_def Let_def)
next
  case True
  let ?s = "or_default_sort (q_sort q)"
  let ?db2 = "logq Q_Comment_findAll (logq (Q_Post_findByPk postId) db)"
  let ?cs = "take (or_default (q_limit q) 50) (order_by_created (scan ?db2) ?s
                    (filter (\<lambda>c. post_id c = postId \<and> is_published c) (comments ?db2)))"
  let ?h0 = "map (\<lambda>c. \<lparr>n_comment = c,
                         n_reaction_counts = ([] :: reaction_count list),
                         n_replies = []\<rparr>) ?cs"
  have e: "\<forall>i<length ?h0. n_replies (?h0 ! i) = []" by simp
  have "\<forall>a b. a < b \<and> b < length ?h0 \<longrightarrow> skey ?s ?h0 a \<le> skey ?s ?h0 b"
    by (rule processed_sorted) simp
  then have s0: "\<forall>a b. a < b \<and> b < length ?h0 \<and> is_root ?h0 a \<and> is_root ?h0 b \<longrightarrow>
      skey ?s ?h0 a \<le> skey ?s ?h0 b"
    by blast
  from pipeline_sorted[OF e s0] obtain H R H' F where
    p: "buildTree ?h0 = (H, R)" "sortReplies ?s H R = Some H'" "serialize H' R = Some F"
       "forest_levels (level_rel ?s) (map (map_tree (shown H')) F)"
    by blast
  let ?d = "\<lparr>l_post_id = postId, l_comments = map (map_tree (shown H')) F,
             l_total_count = length ?cs, l_sort = ?s\<rparr>"
  have run: "getPostComments db postId q = Some (?db2, Success 200 ?d '''')"
    using True p(1,2,3) by (simp add: getPostComments_def Let_def toJSON_def count_reactions_def)
  have n: "q_sort q = Some ''newest'' \<Longrightarrow> level_rel ?s = (newer_first :: comment \<times> reaction_count list \<Rightarrow> _)"
    by (simp add: level_rel_def or_default_sort_def)
  have o: "q_sort q \<noteq> Some ''newest'' \<Longrightarrow> level_rel ?s = (older_first :: comment \<times> reaction_count list \<Rightarrow> _)"
    using True by (auto simp: level_rel_def or_default_sort_def sort_valid_def split: option.splits)
  show ?thesis
    unfolding run using p(4) n o by auto
qed


theorem listing_levels_sorted_witness:
  "(1::nat) \<le> 1 \<and> sort_valid (q_sort newest_query) \<and> limit_valid 100 (q_limit newest_query) \<and>
   1 \<in> set (posts two_replies_db) \<and> q_sort newest_query = Some ''newest'' \<and>
   (\<exists>db' d. getPostComments two_replies_db 1 newest_query = Some (db', Success 200 d '''') \<and>
      forest_levels newer_first (l_comments d) \<and>
      map (map_tree (id_c \<circ> fst)) (l_comments d) =
        [Node 2 [], Node 1 [Node 7 [], Node 3 [Node 4 [Node 5 [Node 6 []]]]]])"
proof -
  have v: "(1::nat) \<le> 1 \<and> sort_valid (q_sort newest_query) \<and> limit_valid 100 (q_limit newest_query) \<and>
      1 \<in> set (posts two_replies_db)"
    by (simp add: newest_query_def sort_valid_def limit_valid_def two_replies_db_def scenario_db_def)
  have n: "q_sort newest_query = Some ''newest''" by (simp add: newest_query_def)
  from listing_levels_sorted[of two_replies_db 1 newest_query] v n obtain db' d where
    r: "getPostComments two_replies_db 1 newest_query = Some (db', Success 200 d '''')"
    and s: "forest_levels newer_first (l_comments d)"
    by blast
  from two_replies_listing r have
    "map (map_tree (id_c \<circ> fst)) (l_comments d) =
        [Node 2 [], Node 1 [Node 7 [], Node 3 [Node 4 [Node 5 [Node 6 []]]]]]"
    by simp
  with v n r s show ?thesis by auto
qed


section \<open>The paged listing\<close>

lemma left_join_media_Nil: "left_join_media [] rows = rows"
  by (induction rows) (simp_all add: left_join_media_def)

lemma set_left_join_media: "set (left_join_media ms rows) \<subseteq> set rows"
  by (auto simp: left_join_media_def)

lemma pipeline_total:
  assumes "\<forall>i<length h0. n_replies (h0 ! i) = []"
  shows "\<exists>H R H' F. buildTree h0 = (H, R) \<and> sortReplies sort' H R = Some H' \<and>
           serialize H' R = Some F"
proof -
  obtain H R where b: "buildTree h0 = (H, R)" by (cases "buildTree h0")
  have l: "linked h0 H" using linked_buildTree[OF assms] b by simp
  have R: "R = filter (is_root h0) [0..<length h0]" using b by (simp add: buildTree_eq)
  have rs: "\<forall>r\<in>set R. r < length h0 \<and> is_root h0 r" unfolding R by auto
  from sortReplies_roots[OF l rs] obtain H' where
    H': "sortReplies sort' H R = Some H'" "linked h0 H'"
    by blast
  from serialize_roots[OF H'(2) rs] obtain F where F: "serialize H' R = Some F" by auto
  show ?thesis using b H'(1) F by blast
qed

text \<open>
  The paged listing orders every level too: its root list is the page of top-level
  comments, in the order of the query, when the primary keys are positive (a reply
  to a comment of id 0 would have a falsy \<open>parent_id\<close> and be pushed as a root).
\<close>

lemma paged_levels_sorted:
  assumes "1 \<le> postId" "sort_valid (q_sort q)" "limit_valid 100 (q_limit q)"
    "optional_isInt_min1 (q_page q)" "postId \<in> set (posts db)"
    and ids: "\<forall>c\<in>set (comments db). 1 \<le> id_c c"
  shows "\<exists>db' d. getPostCommentsPaged db postId q = Some (db', Success 200 d '''') \<and>
           forest_levels (level_rel (or_default_sort (q_sort q))) (pl_comments d)"
proof -
  let ?s = "or_default_sort (q_sort q)"
  let ?k = "\<lambda>c. if ?s = ''newest'' then - created_at c else created_at c"
  let ?db2 = "logq Q_Comment_findAll (logq (Q_Post_findByPk postId) db)"
  define top where "top = filter (\<lambda>c. post_id c = postId \<and> is_published c \<and> parent_id c = None) (comments ?db2)"
  define jtop where "jtop = filter (\<lambda>c. post_id c = postId \<and> is_published c \<and> parent_id c = None)
        (left_join_media (media ?db2) (comments ?db2))"
  define cr where "cr = take (or_default (q_limit q) 10)
        (drop ((or_default (q_page q) 1 - 1) * or_default (q_limit q) 10)
           (order_by_created (scan ?db2) ?s jtop))"
  define rr where "rr = (if map id_c cr \<noteq> []
               then order_by_created (scan ?db2) ?s
                      (filter (\<lambda>c. references (map id_c cr) c \<and> is_published c)
                         (left_join_media (media ?db2) (comments ?db2)))
               else [])"
  define h0 where "h0 = map (\<lambda>c. \<lparr>n_comment = getCommentData c,
                         n_reaction_counts = sql_reaction_counts (reactions_of ?db2 (id_c c)),
                         n_replies = []\<rparr>) (cr @ rr)"
  have e: "\<forall>i<length h0. n_replies (h0 ! i) = []"
    unfolding h0_def by (simp del: map_append)
  have len: "length h0 = length cr + length rr" by (simp add: h0_def)
  have nc: "n_comment (h0 ! i) = (cr @ rr) ! i" if "i < length h0" for i
    using that unfolding h0_def by (simp add: getCommentData_def del: map_append)
  have crs: "set cr \<subseteq> set (comments db)"
  proof -
    have "set cr \<subseteq> set (order_by_created (scan ?db2) ?s jtop)"
      unfolding cr_def by (meson in_set_dropD in_set_takeD subsetI)
    also have "\<dots> = set jtop" by (rule set_order_by_created)
    also have "\<dots> \<subseteq> set (comments db)"
      using set_left_join_media[of "media ?db2" "comments ?db2"] by (auto simp: jtop_def)
    finally show ?thesis .
  qed
  have rrs: "\<forall>c\<in>set rr. references (map id_c cr) c"
    by (auto simp: rr_def set_order_by_created split: if_splits)
  have notroot: "\<not> is_root h0 i" if i: "length cr \<le> i" "i < length h0" for i
  proof -
    have "(cr @ rr) ! i \<in> set rr" using i len by (simp add: nth_append)
    then have "references (map id_c cr) ((cr @ rr) ! i)" using rrs by blast
    then obtain p where p: "parent_id ((cr @ rr) ! i) = Some p" "p \<in> id_c ` set cr"
      by (auto simp: references_def split: option.splits)
    then have "1 \<le> p" using crs ids by auto
    then show ?thesis using p(1) nc[OF i(2)] by (simp add: is_root_def truthy_def)
  qed
  have scr: "sorted (map ?k cr)"
    unfolding cr_def using order_by_created_sorted[of ?s "scan ?db2" jtop]
    by (simp add: take_map[symmetric] drop_map[symmetric] sorted_wrt_take sorted_wrt_drop)
  have s0: "\<forall>a b. a < b \<and> b < length h0 \<and> is_root h0 a \<and> is_root h0 b \<longrightarrow>
      skey ?s h0 a \<le> skey ?s h0 b"
  proof (intro allI impI)
    fix a b assume ab: "a < b \<and> b < length h0 \<and> is_root h0 a \<and> is_root h0 b"
    then have lb: "b < length cr" using notroot[of b] by (cases "b < length cr") auto
    then have la: "a < length cr" using ab by simp
    have "map ?k cr ! a \<le> map ?k cr ! b"
      using scr ab lb by (intro sorted_nth_mono) auto
    then have le: "?k (cr ! a) \<le> ?k (cr ! b)" using la lb by simp
    have "n_comment (h0 ! a) = cr ! a" "n_comment (h0 ! b) = cr ! b"
      using nc[of a] nc[of b] la lb len by (simp_all add: nth_append)
    then show "skey ?s h0 a \<le> skey ?s h0 b"
      using le unfolding skey_def by (cases "?s = ''newest''") simp_all
  qed
  from pipeline_sorted[OF e s0] obtain H R H' F where
    p: "buildTree h0 = (H, R)" "sortReplies ?s H R = Some H'" "serialize H' R = Some F"
       "forest_levels (level_rel ?s) (map (map_tree (shown H')) F)"
    by blast
  have v: "\<not> \<not> (1 \<le> postId \<and> sort_valid (q_sort q) \<and> limit_valid 100 (q_limit q) \<and>
             optional_isInt_min1 (q_page q))" "\<not> postId \<notin> set (posts (logq (Q_Post_findByPk postId) db))"
    using assms by simp_all
  show ?thesis
    unfolding getPostCommentsPaged_def Let_def
    unfolding top_def[symmetric] jtop_def[symmetric] cr_def[symmetric] rr_def[symmetric]
      h0_def[symmetric]
    unfolding if_not_P[OF v(1)] if_not_P[OF v(2)] p
    using p(4) by (simp add: p)
qed

text \<open>
  A comment with two media rows comes twice out of the join: the page lists it twice,
  and its reply goes under the object that \<open>commentMap\<close> kept, the later one.
\<close>

lemma media_join:
  "left_join_media (media media_db) (comments media_db) =
     [row 1 None 10, row 1 None 10, row 3 (Some 1) 30]"
  by (simp add: left_join_media_def media_db_def scenario_db_def row_def)

lemma paged_listing_media_rows:
  "map (map_tree (id_c \<circ> fst))
     (case getPostCommentsPaged media_db 1 default_query of
        Some (db', Success s d msg) \<Rightarrow> pl_comments d | _ \<Rightarrow> []) =
   [Node 1 [], Node 1 [Node 3 []]]"
proof -
  have j: "left_join_media (media (logq Q_Comment_findAll (logq (Q_Post_findByPk 1) media_db)))
             (comments (logq Q_Comment_findAll (logq (Q_Post_findByPk 1) media_db))) =
           [row 1 None 10, row 1 None 10, row 3 (Some 1) 30]"
    using media_join by (simp add: logq_def)
  show ?thesis
    unfolding getPostCommentsPaged_def Let_def j
    by (simp add: default_query_def media_db_def scenario_db_def
      row_def sort_valid_def limit_valid_def optional_isInt_min1_def
      or_default_sort_def or_default_def references_def getCommentData_def
      logq_def Let_def order_by_created_def arrange_id
      reactions_of_def reaction_counts_def sql_reaction_counts_def
      buildTree_def commentMap_def attach_def truthy_def upt_rec total_pages_of_def
      sortReplies.simps serialize.simps js_sort_def created_cmp_def shown_def)
qed

lemma paged_pagination:
  assumes "1 \<le> postId" "sort_valid (q_sort q)" "limit_valid 100 (q_limit q)"
    "optional_isInt_min1 (q_page q)" "postId \<in> set (posts db)"
  shows "\<exists>db' d. getPostCommentsPaged db postId q = Some (db', Success 200 d '''') \<and>
           pl_total_count d = length (top_level db postId) \<and>
           pl_pagination d =
             \<lparr>current_page = or_default (q_page q) 1,
              total_pages = total_pages_of (length (top_level db postId)) (or_default (q_limit q) 10),
              pg_total_count = length (top_level db postId),
              pg_limit = or_default (q_limit q) 10,
              has_next_page = (or_default (q_page q) 1 <
                 total_pages_of (length (top_level db postId)) (or_default (q_limit q) 10)),
              has_prev_page = (or_default (q_page q) 1 > 1)\<rparr>"
proof -
  let ?s = "or_default_sort (q_sort q)"
  let ?db2 = "logq Q_Comment_findAll (logq (Q_Post_findByPk postId) db)"
  define top where "top = filter (\<lambda>c. post_id c = postId \<and> is_published c \<and> parent_id c = None) (comments ?db2)"
  define jtop where "jtop = filter (\<lambda>c. post_id c = postId \<and> is_published c \<and> parent_id c = None)
        (left_join_media (media ?db2) (comments ?db2))"
  define cr where "cr = take (or_default (q_limit q) 10)
        (drop ((or_default (q_page q) 1 - 1) * or_default (q_limit q) 10)
           (order_by_created (scan ?db2) ?s jtop))"
  define rr where "rr = (if map id_c cr \<noteq> []
               then order_by_created (scan ?db2) ?s
                      (filter (\<lambda>c. references (map id_c cr) c \<and> is_published c)
                         (left_join_media (media ?db2) (comments ?db2)))
               else [])"
  define h0 where "h0 = map (\<lambda>c. \<lparr>n_comment = getCommentData c,
                         n_reaction_counts = sql_reaction_counts (reactions_of ?db2 (id_c c)),
                         n_replies = []\<rparr>) (cr @ rr)"
  have e: "\<forall>i<length h0. n_replies (h0 ! i) = []"
    unfolding h0_def by (simp del: map_append)
  from pipeline_total[OF e, of ?s] obtain H R H' F where
    p: "buildTree h0 = (H, R)" "sortReplies ?s H R = Some H'" "serialize H' R = Some F"
    by blast
  have t: "top = top_level db postId" by (simp add: top_def top_level_def)
  have v: "\<not> \<not> (1 \<le> postId \<and> sort_valid (q_sort q) \<and> limit_valid 100 (q_limit q) \<and>
             optional_isInt_min1 (q_page q))" "\<not> postId \<notin> set (posts (logq (Q_Post_findByPk postId) db))"
    using assms by simp_all
  show ?thesis
    unfolding getPostCommentsPaged_def Let_def
    unfolding top_def[symmetric] jtop_def[symmetric] cr_def[symmetric] rr_def[symmetric]
      h0_def[symmetric]
    unfolding if_not_P[OF v(1)] if_not_P[OF v(2)] p t
    by (simp add: p)
qed

lemma paged_has_next_page:
  assumes "1 \<le> postId" "sort_valid (q_sort q)" "postId \<in> set (posts db)"
    and "q_page q = Some 1"
  shows "q_limit q = Some 100 \<and> length (top_level db postId) = 100 \<longrightarrow>
           (\<exists>db' d. getPostCommentsPaged db postId q = Some (db', Success 200 d '''') \<and>
              \<not> has_next_page (pl_pagination d))"
    and "q_limit q = Some 1 \<and> 2 \<le> length (top_level db postId) \<longrightarrow>
           (\<exists>db' d. getPostCommentsPaged db postId q = Some (db', Success 200 d '''') \<and>
              has_next_page (pl_pagination d))"
proof -
  have pg: "optional_isInt_min1 (q_page q)" "or_default (q_page q) 1 = 1"
    using assms(4) by (simp_all add: optional_isInt_min1_def or_default_def)
  show "q_limit q = Some 100 \<and> length (top_level db postId) = 100 \<longrightarrow>
           (\<exists>db' d. getPostCommentsPaged db postId q = Some (db', Success 200 d '''') \<and>
              \<not> has_next_page (pl_pagination d))"
  proof
    assume a: "q_limit q = Some 100 \<and> length (top_level db postId) = 100"
    then have l: "limit_valid 100 (q_limit q)" "or_default (q_limit q) 10 = 100"
      by (simp_all add: limit_valid_def or_default_def)
    from paged_pagination[OF assms(1,2) l(1) pg(1) assms(3)] a l(2) pg(2)
    show "\<exists>db' d. getPostCommentsPaged db postId q = Some (db', Success 200 d '''') \<and>
              \<not> has_next_page (pl_pagination d)"
      by (auto simp: total_pages_of_def)
  qed
  show "q_limit q = Some 1 \<and> 2 \<le> length (top_level db postId) \<longrightarrow>
           (\<exists>db' d. getPostCommentsPaged db postId q = Some (db', Success 200 d '''') \<and>
              has_next_page (pl_pagination d))"
  proof
    assume a: "q_limit q = Some 1 \<and> 2 \<le> length (top_level db postId)"
    then have l: "limit_valid 100 (q_limit q)" "or_default (q_limit q) 10 = 1"
      by (simp_all add: limit_valid_def or_default_def)
    from paged_pagination[OF assms(1,2) l(1) pg(1) assms(3)] a l(2) pg(2)
    show "\<exists>db' d. getPostCommentsPaged db postId q = Some (db', Success 200 d '''') \<and>
              has_next_page (pl_pagination d)"
      by (auto simp: total_pages_of_def)
  qed
qed

text \<open>
  Claim C3. The paged listing counts and pages the published top-level comments and
  derives \<open>has_next_page\<close> from that count, as the two lemmas above show. But the
  replies it attaches are only those whose \<open>parent_id\<close> is the id of a top-level
  comment of the page: in the scenario, with default parameters, the tree is
  A with its reply C, and B; D, a published comment of the post that descends from A
  through C, is missing, and so are E and F.
\<close>

theorem paged_listing_misses_deep_replies:
  "getPostCommentsPaged (scenario_db scenario_rows) 1 default_query =
     Some (logq Q_Comment_findAll (logq (Q_Post_findByPk 1) (scenario_db scenario_rows)),
           Success 200
             \<lparr>pl_post_id = 1,
              pl_comments = [Node (row 1 None 10, []) [Node (row 3 (Some 1) 30, []) []],
                             Node (row 2 None 20, []) []],
              pl_total_count = 2, pl_sort = ''oldest'',
              pl_pagination = \<lparr>current_page = 1, total_pages = 1, pg_total_count = 2,
                 pg_limit = 10, has_next_page = False, has_prev_page = False\<rparr>\<rparr> '''') \<and>
   row 4 (Some 3) 40 \<in> set (comments (scenario_db scenario_rows)) \<and>
   is_published (row 4 (Some 3) 40) \<and> post_id (row 4 (Some 3) 40) = 1 \<and>
   descends (comments (scenario_db scenario_rows)) {1} (row 4 (Some 3) 40)"
proof -
  have "descends scenario_rows {1} (row 3 (Some 1) 30)"
    by (rule descends.direct[where p = 1]) (simp_all add: row_def)
  then have d: "descends scenario_rows {1} (row 4 (Some 3) 40)"
    by (rule descends.via[where p = 3, rotated 3]) (simp_all add: row_def scenario_rows_def)
  have "getPostCommentsPaged (scenario_db scenario_rows) 1 default_query =
     Some (logq Q_Comment_findAll (logq (Q_Post_findByPk 1) (scenario_db scenario_rows)),
           Success 200
             \<lparr>pl_post_id = 1,
              pl_comments = [Node (row 1 None 10, []) [Node (row 3 (Some 1) 30, []) []],
                             Node (row 2 None 20, []) []],
              pl_total_count = 2, pl_sort = ''oldest'',
              pl_pagination = \<lparr>current_page = 1, total_pages = 1, pg_total_count = 2,
                 pg_limit = 10, has_next_page = False, has_prev_page = False\<rparr>\<rparr> '''')"
    by (simp add: getPostCommentsPaged_def default_query_def scenario_db_def
      scenario_rows_def row_def sort_valid_def limit_valid_def optional_isInt_min1_def
      or_default_sort_def or_default_def references_def getCommentData_def
      logq_def Let_def order_by_created_def arrange_id left_join_media_Nil
      reactions_of_def reaction_counts_def sql_reaction_counts_def
      buildTree_def commentMap_def attach_def truthy_def upt_rec total_pages_of_def
      sortReplies.simps serialize.simps js_sort_def created_cmp_def shown_def)
  then show ?thesis using d by (simp add: scenario_db_def scenario_rows_def row_def)
qed


end
